theory Spec2Isabelle
  imports Main
begin

section \<open>Text: Python strings and the library functions the module calls\<close>

text \<open>
  A Python \<open>str\<close> is modelled as a \<open>string\<close> (a list of 8-bit characters): the bytes of its
  UTF-8 encoding, which for ASCII text is the list of its characters and which is what
  \<open>urllib.parse.quote\<close> encodes. Searching, replacing and splitting agree on the characters
  and on the bytes, because no UTF-8 encoding of a character occurs inside or across the
  encodings of others. The character classes of the module's regular expressions for tags
  are ASCII ranges, written here as the alphabets they list.

  The case conversions and \<open>str.isdigit\<close> follow the Unicode character database, which is
  not part of the module. On ASCII text they are defined here; on any other text they are
  the fields of a parameter \<open>ucd\<close>, about which nothing is assumed, so that every result
  holds whatever the database says.
\<close>

record unicode_database =
  ucd_lower :: "string \<Rightarrow> string"
  ucd_upper :: "string \<Rightarrow> string"
  ucd_title :: "string \<Rightarrow> string"
  ucd_capitalize :: "string \<Rightarrow> string"
  ucd_isdigit :: "string \<Rightarrow> bool"

definition ascii_upper :: string where
  "ascii_upper = ''ABCDEFGHIJKLMNOPQRSTUVWXYZ''"

definition ascii_lower :: string where
  "ascii_lower = ''abcdefghijklmnopqrstuvwxyz''"

definition ascii_digits :: string where
  "ascii_digits = ''0123456789''"

definition is_alnum :: "char \<Rightarrow> bool" where
  "is_alnum c = (c \<in> set (ascii_upper @ ascii_lower @ ascii_digits))"

definition is_cased :: "char \<Rightarrow> bool" where
  "is_cased c = (c \<in> set (ascii_upper @ ascii_lower))"

definition is_ascii :: "char \<Rightarrow> bool" where
  "is_ascii c = ((of_char c :: nat) < 128)"

definition to_lower :: "char \<Rightarrow> char" where
  "to_lower c = (case map_of (zip ascii_upper ascii_lower) c of Some d \<Rightarrow> d | None \<Rightarrow> c)"

definition to_upper :: "char \<Rightarrow> char" where
  "to_upper c = (case map_of (zip ascii_lower ascii_upper) c of Some d \<Rightarrow> d | None \<Rightarrow> c)"

text \<open>\<open>str.lower\<close> and \<open>str.upper\<close>.\<close>

definition lower_py :: "unicode_database \<Rightarrow> string \<Rightarrow> string" where
  "lower_py ucd s = (if list_all is_ascii s then map to_lower s else ucd_lower ucd s)"

definition upper_py :: "unicode_database \<Rightarrow> string \<Rightarrow> string" where
  "upper_py ucd s = (if list_all is_ascii s then map to_upper s else ucd_upper ucd s)"

text \<open>\<open>str.title\<close>: a cased character is upper-cased when the character before it is not
  cased (or there is none), lower-cased otherwise.\<close>

fun title_from :: "bool \<Rightarrow> string \<Rightarrow> string" where
  "title_from previous_is_cased [] = []"
| "title_from previous_is_cased (c # cs) =
     (if previous_is_cased then to_lower c else to_upper c) # title_from (is_cased c) cs"

definition title_py :: "unicode_database \<Rightarrow> string \<Rightarrow> string" where
  "title_py ucd s = (if list_all is_ascii s then title_from False s else ucd_title ucd s)"

text \<open>\<open>str.capitalize\<close>: first character upper-cased, the rest lower-cased.\<close>

fun capitalize_ascii :: "string \<Rightarrow> string" where
  "capitalize_ascii [] = []"
| "capitalize_ascii (c # cs) = to_upper c # map to_lower cs"

definition capitalize_py :: "unicode_database \<Rightarrow> string \<Rightarrow> string" where
  "capitalize_py ucd s = (if list_all is_ascii s then capitalize_ascii s else ucd_capitalize ucd s)"

text \<open>\<open>str.isdigit\<close>: non-empty and every character a digit.\<close>

definition isdigit_py :: "unicode_database \<Rightarrow> string \<Rightarrow> bool" where
  "isdigit_py ucd s =
     (if list_all is_ascii s then s \<noteq> [] \<and> list_all (\<lambda>c. c \<in> set ascii_digits) s
      else ucd_isdigit ucd s)"

text \<open>The substring test \<open>sub in s\<close>.\<close>

fun contains :: "string \<Rightarrow> string \<Rightarrow> bool" where
  "contains sub [] = (sub = [])"
| "contains sub (c # cs) = (take (length sub) (c # cs) = sub \<or> contains sub cs)"

text \<open>\<open>str(n)\<close> for a non-negative integer: its decimal digits.\<close>

definition digit_char :: "nat \<Rightarrow> char" where
  "digit_char d = ascii_digits ! d"

fun str_nat :: "nat \<Rightarrow> string" where
  "str_nat n = (if n < 10 then [digit_char n] else str_nat (n div 10) @ [digit_char (n mod 10)])"

declare str_nat.simps [simp del]

text \<open>The separator class \<open>[\s_-]\<close> of \<open>re.split\<close>. For a \<open>str\<close> pattern \<open>\s\<close> is the Unicode
  white space: the ASCII characters tab, line feed, vertical tab, form feed, carriage
  return, the four separators 28 to 31 and space, and the characters U+0085, U+00A0,
  U+1680, U+2000 to U+200A, U+2028, U+2029, U+202F, U+205F and U+3000, listed here by their
  UTF-8 encodings. \<open>sep_length s\<close> is the number of bytes of the separator character that
  \<open>s\<close> starts with, 0 when it starts with none.\<close>

definition is_ascii_sep :: "char \<Rightarrow> bool" where
  "is_ascii_sep c = ((of_char c :: nat) \<in> {9, 10, 11, 12, 13, 28, 29, 30, 31, 32}
     \<or> c = CHR ''_'' \<or> c = CHR ''-'')"

definition unicode_spaces :: "string list" where
  "unicode_spaces =
     [[CHR 0xC2, CHR 0x85], [CHR 0xC2, CHR 0xA0], [CHR 0xE1, CHR 0x9A, CHR 0x80],
      [CHR 0xE2, CHR 0x80, CHR 0x80], [CHR 0xE2, CHR 0x80, CHR 0x81],
      [CHR 0xE2, CHR 0x80, CHR 0x82], [CHR 0xE2, CHR 0x80, CHR 0x83],
      [CHR 0xE2, CHR 0x80, CHR 0x84], [CHR 0xE2, CHR 0x80, CHR 0x85],
      [CHR 0xE2, CHR 0x80, CHR 0x86], [CHR 0xE2, CHR 0x80, CHR 0x87],
      [CHR 0xE2, CHR 0x80, CHR 0x88], [CHR 0xE2, CHR 0x80, CHR 0x89],
      [CHR 0xE2, CHR 0x80, CHR 0x8A], [CHR 0xE2, CHR 0x80, CHR 0xA8],
      [CHR 0xE2, CHR 0x80, CHR 0xA9], [CHR 0xE2, CHR 0x80, CHR 0xAF],
      [CHR 0xE2, CHR 0x81, CHR 0x9F], [CHR 0xE3, CHR 0x80, CHR 0x80]]"

definition sep_length :: "string \<Rightarrow> nat" where
  "sep_length s =
     (if s \<noteq> [] \<and> is_ascii_sep (hd s) then 1
      else case find (\<lambda>w. take (length w) s = w) unicode_spaces of
             Some w \<Rightarrow> length w
           | None \<Rightarrow> 0)"

text \<open>\<open>re.split(r'[\s_-]+', s)\<close>: the pieces between maximal runs of separators; a run at
  the start or the end of \<open>s\<close> leaves an empty piece there. The loop carries the piece read
  so far, whether the scan is inside a run of separators, and the number of bytes of the
  current separator character still to pass.\<close>

fun re_split_loop :: "string \<Rightarrow> bool \<Rightarrow> nat \<Rightarrow> string \<Rightarrow> string list" where
  "re_split_loop piece in_run skip [] = [piece]"
| "re_split_loop piece in_run skip (c # cs) =
     (if 0 < skip then re_split_loop piece in_run (skip - 1) cs
      else if sep_length (c # cs) = 0 then re_split_loop (piece @ [c]) False 0 cs
      else if in_run then re_split_loop [] True (sep_length (c # cs) - 1) cs
      else piece # re_split_loop [] True (sep_length (c # cs) - 1) cs)"

definition re_split_sep :: "string \<Rightarrow> string list" where
  "re_split_sep s = re_split_loop [] False 0 s"

text \<open>\<open>str.replace(old, new)\<close>: every non-overlapping occurrence of \<open>old\<close>, found from the
  left, is replaced; an empty \<open>old\<close> matches before every character and at the end.\<close>

fun replace_py :: "string \<Rightarrow> string \<Rightarrow> string \<Rightarrow> string" where
  "replace_py old new [] = (if old = [] then new else [])"
| "replace_py old new (c # cs) =
     (if old = [] then new @ c # replace_py old new cs
      else if take (length old) (c # cs) = old
        then new @ replace_py old new (drop (length old - 1) cs)
      else c # replace_py old new cs)"

text \<open>\<open>urllib.parse.quote(s, safe)\<close>: every byte that is not a letter, a digit, one of
  \<open>_.-~\<close> or listed in \<open>safe\<close> becomes \<open>%XX\<close> with upper-case hexadecimal digits.\<close>

definition always_safe :: string where
  "always_safe = ascii_upper @ ascii_lower @ ascii_digits @ ''_.-~''"

definition hex_digits :: string where
  "hex_digits = ''0123456789ABCDEF''"

definition percent_byte :: "char \<Rightarrow> string" where
  "percent_byte c =
     [CHR ''%'', hex_digits ! ((of_char c :: nat) div 16), hex_digits ! ((of_char c :: nat) mod 16)]"

definition quote_py :: "string \<Rightarrow> string \<Rightarrow> string" where
  "quote_py s safe =
     concat (map (\<lambda>c. if c \<in> set (always_safe @ safe) then [c] else percent_byte c) s)"

text \<open>\<open>itertools.product(*lists)\<close>: the tuples in lexicographic order of positions, the last
  list varying fastest.\<close>

fun itertools_product :: "'a list list \<Rightarrow> 'a list list" where
  "itertools_product [] = [[]]"
| "itertools_product (l # ls) = concat (map (\<lambda>x. map (\<lambda>combo. x # combo) (itertools_product ls)) l)"

section \<open>Configuration\<close>

definition MAX_COMBINATIONS :: nat where
  "MAX_COMBINATIONS = 20000"

definition TEMPLATE_GACHA :: string where
  "TEMPLATE_GACHA =
     ''https://dl.dir.freefiremobile.com/common/OB[V]/CSH/gacha/[G]_[E]xxx_[T]_TabID_ind.jpg''"

definition TEMPLATE_BANNER_SPLASH :: string where
  "TEMPLATE_BANNER_SPLASH = ''https://dl.dir.freefiremobile.com/common/OB[V]/ID/[T]_[E]/splash.jpg''"

definition TEMPLATE_BANNER_OVERVIEW :: string where
  "TEMPLATE_BANNER_OVERVIEW = ''https://dl.dir.freefiremobile.com/common/OB[V]/ID/[T]_[E]/overview.jpg''"

definition OVERVIEW_VARIANTS :: "string list" where
  "OVERVIEW_VARIANTS = [''overview'', ''viewover'', ''overivew'', ''rivervow'', ''vowover'']"

section \<open>Utilities\<close>

text \<open>\<open>extract_tags\<close> is \<open>findall\<close> of \<open>\[([A-Za-z0-9]+)\]\<close>: scanning from the left, an opening
  bracket followed by a non-empty maximal run of letters and digits and a closing bracket
  is a match, whose run is reported, and the scan goes on after the closing bracket;
  anywhere else the scan moves one character on.\<close>

function extract_tags :: "string \<Rightarrow> string list" where
  "extract_tags [] = []"
| "extract_tags (c # cs) =
     (let run = takeWhile is_alnum cs; rest = dropWhile is_alnum cs
      in if c = CHR ''['' \<and> run \<noteq> [] \<and> take 1 rest = '']''
         then run # extract_tags (drop 1 rest)
         else extract_tags cs)"
  by pat_completeness auto
termination extract_tags
  by (relation "measure length")
     (simp_all add: less_Suc_eq_le le_trans [OF diff_le_self length_dropWhile_le])

text \<open>\<open>valid_tags\<close>: every tag matches \<open>[A-Za-z0-9]+\<close> as a whole.\<close>

definition valid_tags :: "string list \<Rightarrow> bool" where
  "valid_tags tags = list_all (\<lambda>t. t \<noteq> [] \<and> list_all is_alnum t) tags"

text \<open>The statement \<open>if x not in variants: variants.append(x)\<close>.\<close>

definition append_new :: "string list \<Rightarrow> string \<Rightarrow> string list" where
  "append_new variants x = (if x \<notin> set variants then variants @ [x] else variants)"

text \<open>The order-preserving de-duplication loop over \<open>seen\<close> and \<open>uniq\<close>.\<close>

fun uniq_loop :: "string list \<Rightarrow> string set \<Rightarrow> string list \<Rightarrow> string list" where
  "uniq_loop [] seen uniq = uniq"
| "uniq_loop (v # vs) seen uniq =
     (if v \<notin> seen then uniq_loop vs (insert v seen) (uniq @ [v]) else uniq_loop vs seen uniq)"

definition expand_gacha_name_base :: "unicode_database \<Rightarrow> string \<Rightarrow> string list" where
  "expand_gacha_name_base ucd name =
     (let orig = name;
          variants = append_new [] orig;
          title = title_py ucd orig;
          variants = append_new variants title;
          lower = lower_py ucd orig;
          variants = append_new variants lower;
          variants =
            (if contains ''token'' lower \<and> contains ''wheel'' lower
             then (let parts = re_split_sep lower;
                       camel = concat (map (capitalize_py ucd) parts)
                   in append_new variants camel)
             else variants)
      in uniq_loop variants {} [])"

text \<open>The candidates of one base: the base itself, then the base with \<open>-2\<close> to \<open>-6\<close>.\<close>

definition suffix_forms :: "string \<Rightarrow> string list" where
  "suffix_forms b = b # map (\<lambda>i. b @ ''-'' @ str_nat i) [2..<7]"

definition expand_gacha_values :: "unicode_database \<Rightarrow> string list \<Rightarrow> string list" where
  "expand_gacha_values ucd values_list =
     (let out = concat (map (\<lambda>v. concat (map suffix_forms (expand_gacha_name_base ucd v))) values_list)
      in uniq_loop out {} [])"

section \<open>URL checking\<close>

text \<open>
  One HTTP request of \<open>check_url\<close> either raises (any exception: a timeout, a refused
  connection, a malformed response) or yields a response with a status. The session is
  the function that says which; \<open>check_url\<close> returns its result and the requests it
  issued, in order. The bare \<open>except:\<close> clauses catch every exception.
\<close>

datatype http_method = HEAD | GET

record request =
  req_method :: http_method
  req_url :: string
  req_timeout :: nat

datatype transport_failure = Timeout | Connection_Failure | Other_Exception string

type_synonym session = "request \<Rightarrow> transport_failure + nat"

definition check_url :: "session \<Rightarrow> string \<Rightarrow> (transport_failure + bool) \<times> request list" where
  "check_url session url =
     (let head_request = \<lparr>req_method = HEAD, req_url = url, req_timeout = 8\<rparr>;
          get_request = \<lparr>req_method = GET, req_url = url, req_timeout = 10\<rparr>;
          head_returned =
            (case session head_request of
               Inr status \<Rightarrow> if status = 200 then Some True else None
             | Inl exn \<Rightarrow> None)
      in case head_returned of
           Some r \<Rightarrow> (Inr r, [head_request])
         | None \<Rightarrow>
             (case session get_request of
                Inr status \<Rightarrow> (Inr (status = 200), [head_request, get_request])
              | Inl exn \<Rightarrow> (Inr False, [head_request, get_request])))"

section \<open>URL generation (cartesian product)\<close>

datatype error = ValueError string

type_synonym tag_values = "string \<rightharpoonup> string list"

text \<open>\<open>tag_values.get(t, [])\<close>.\<close>

definition get_values :: "tag_values \<Rightarrow> string \<Rightarrow> string list" where
  "get_values tag_values t = (case tag_values t of None \<Rightarrow> [] | Some vals \<Rightarrow> vals)"

text \<open>The inner loop over \<open>enumerate(tags)\<close>: the markers are replaced one tag after the other,
  each by the percent-encoded value, with the empty \<open>safe\<close> set.\<close>

definition substitute :: "string \<Rightarrow> string list \<Rightarrow> string list \<Rightarrow> string" where
  "substitute template tags combo =
     fold (\<lambda>(t, v) u. replace_py (''['' @ t @ '']'') (quote_py v []) u) (zip tags combo) template"

subsection \<open>The first definition of \<open>generate_urls_from_template\<close> (shadowed later in the module)\<close>

text \<open>The loop that prepares the value list of each tag (the source's \<open>lists\<close>); \<open>None\<close> is its \<open>return []\<close>.\<close>

fun prepare_lists_first :: "unicode_database \<Rightarrow> tag_values \<Rightarrow> string list \<Rightarrow> string list list \<Rightarrow> string list list option" where
  "prepare_lists_first ucd tag_values [] value_lists = Some value_lists"
| "prepare_lists_first ucd tag_values (t # ts) value_lists =
     (let vals = get_values tag_values t
      in if vals = [] then None
         else if upper_py ucd t = ''G''
           then prepare_lists_first ucd tag_values ts (value_lists @ [expand_gacha_values ucd vals])
         else if upper_py ucd t = ''T'' \<and> list_all (isdigit_py ucd) vals
           then prepare_lists_first ucd tag_values ts (value_lists @ [vals])
         else prepare_lists_first ucd tag_values ts (value_lists @ [vals]))"

definition too_many_message_first :: "nat \<Rightarrow> string" where
  "too_many_message_first running =
     ''Jumlah kombinasi ('' @ str_nat running @ '') terlalu besar. Kurangi jumlah nilai per tag.''"

fun count_total_first :: "nat \<Rightarrow> string list list \<Rightarrow> error + nat" where
  "count_total_first running [] = Inr running"
| "count_total_first running (l # ls) =
     (let running = running * length l
      in if running > MAX_COMBINATIONS then Inl (ValueError (too_many_message_first running))
         else count_total_first running ls)"

definition generate_urls_from_template_first :: "unicode_database \<Rightarrow> string \<Rightarrow> tag_values \<Rightarrow> error + string list" where
  "generate_urls_from_template_first ucd template tag_values =
     (let tags = extract_tags template
      in if tags = [] then Inr []
         else case prepare_lists_first ucd tag_values tags [] of
                None \<Rightarrow> Inr []
              | Some value_lists \<Rightarrow>
                  (case count_total_first 1 value_lists of
                     Inl e \<Rightarrow> Inl e
                   | Inr running \<Rightarrow>
                       Inr (map (\<lambda>combo.
                               fold (\<lambda>(t, v) url. replace_py (''['' @ t @ '']'') (quote_py v []) url)
                                 (zip tags combo) template)
                             (itertools_product value_lists))))"

subsection \<open>The implementation behind the surviving \<open>generate_urls_from_template\<close>\<close>

fun prepare_lists :: "unicode_database \<Rightarrow> tag_values \<Rightarrow> string list \<Rightarrow> string list list \<Rightarrow> string list list option" where
  "prepare_lists ucd tag_values [] value_lists = Some value_lists"
| "prepare_lists ucd tag_values (t # ts) value_lists =
     (let vals = get_values tag_values t
      in if vals = [] then None
         else if upper_py ucd t = ''G''
           then prepare_lists ucd tag_values ts (value_lists @ [expand_gacha_values ucd vals])
         else prepare_lists ucd tag_values ts (value_lists @ [vals]))"

definition too_many_message :: "nat \<Rightarrow> string" where
  "too_many_message running =
     ''Jumlah Kombinasi ('' @ str_nat running @ '') Terlalu Banyak. Kurangi Jumlah Huruf/Angka Di Tag.''"

fun count_total :: "nat \<Rightarrow> string list list \<Rightarrow> error + nat" where
  "count_total running [] = Inr running"
| "count_total running (l # ls) =
     (let running = running * length l
      in if running > MAX_COMBINATIONS then Inl (ValueError (too_many_message running))
         else count_total running ls)"

definition generate_urls_from_template_impl :: "unicode_database \<Rightarrow> string \<Rightarrow> tag_values \<Rightarrow> error + string list" where
  "generate_urls_from_template_impl ucd template tag_values =
     (let tags = extract_tags template
      in if tags = [] then Inr []
         else case prepare_lists ucd tag_values tags [] of
                None \<Rightarrow> Inr []
              | Some value_lists \<Rightarrow>
                  (case count_total 1 value_lists of
                     Inl e \<Rightarrow> Inl e
                   | Inr running \<Rightarrow> Inr (map (substitute template tags) (itertools_product value_lists))))"

definition generate_urls_from_template :: "unicode_database \<Rightarrow> string \<Rightarrow> tag_values \<Rightarrow> error + string list" where
  "generate_urls_from_template ucd template tag_values =
     generate_urls_from_template_impl ucd template tag_values"

section \<open>Conversation: the steps of \<open>handle_tag_input\<close> around the generation\<close>

text \<open>Receiving a custom template: the replies of the branch \<open>expecting_template\<close>.\<close>

datatype template_reply = No_Tag_Found | Tags_Not_Alphanumeric | Template_Accepted "string list"

definition receive_template :: "string \<Rightarrow> template_reply" where
  "receive_template text =
     (let tags = extract_tags text
      in if tags = [] then No_Tag_Found
         else if \<not> valid_tags tags then Tags_Not_Alphanumeric
         else Template_Accepted tags)"

text \<open>Building the URL list once every tag has its values: the marker \<open>BANNER\<close> asks for the
  splash URLs followed by the overview URLs in their spellings, any other marker is the
  template itself.\<close>

definition overview_spellings :: "string list \<Rightarrow> string list" where
  "overview_spellings base_ov_urls =
     concat (map (\<lambda>base. map (\<lambda>v. replace_py ''/overview.jpg'' (''/'' @ v @ ''.jpg'') base)
                            OVERVIEW_VARIANTS) base_ov_urls)"

definition build_urls :: "unicode_database \<Rightarrow> string \<Rightarrow> tag_values \<Rightarrow> error + string list" where
  "build_urls ucd template_marker tag_values =
     (if template_marker = ''BANNER''
      then (case generate_urls_from_template ucd TEMPLATE_BANNER_SPLASH tag_values of
              Inl e \<Rightarrow> Inl e
            | Inr splash_urls \<Rightarrow>
                (case generate_urls_from_template ucd TEMPLATE_BANNER_OVERVIEW tag_values of
                   Inl e \<Rightarrow> Inl e
                 | Inr base_ov_urls \<Rightarrow> Inr (splash_urls @ overview_spellings base_ov_urls)))
      else generate_urls_from_template ucd template_marker tag_values)"

text \<open>What the user is told in the end; the search itself (\<open>find_first_live_url\<close>) is a
  parameter, called only on a non-empty URL list.\<close>

datatype final_reply =
    Generation_Error string
  | Nothing_Generated
  | Found_Url string
  | Not_Found

definition finish_request :: "unicode_database \<Rightarrow> (string list \<Rightarrow> string option) \<Rightarrow> string \<Rightarrow> tag_values \<Rightarrow> final_reply" where
  "finish_request ucd find_first_live_url template_marker tag_values =
     (case build_urls ucd template_marker tag_values of
        Inl (ValueError message) \<Rightarrow> Generation_Error message
      | Inr urls \<Rightarrow>
          if urls = [] then Nothing_Generated
          else (case find_first_live_url urls of
                  None \<Rightarrow> Not_Found
                | Some found \<Rightarrow> if found = [] then Not_Found else Found_Url found))"

section \<open>The value list of a tag, as the generation uses it\<close>

text \<open>The list that the preparation loop appends for a tag: the expanded gacha names for
  the tag \<open>G\<close> (in either case), the raw values otherwise; and the lengths of these lists
  for the tags of a template, in the order of the markers.\<close>

definition working_list :: "unicode_database \<Rightarrow> tag_values \<Rightarrow> string \<Rightarrow> string list" where
  "working_list ucd tag_values t =
     (if upper_py ucd t = ''G'' then expand_gacha_values ucd (get_values tag_values t)
      else get_values tag_values t)"


text \<open>The casing variants of a gacha name when no camel-case form is added: the original,
  then the title case and the lower case where they are new.\<close>

definition casing_variants :: "unicode_database \<Rightarrow> string \<Rightarrow> string list" where
  "casing_variants ucd v =
     [v] @ (if title_py ucd v = v then [] else [title_py ucd v])
         @ (if lower_py ucd v = v \<or> lower_py ucd v = title_py ucd v then [] else [lower_py ucd v])"

text \<open>The suffixes of a candidate after the unsuffixed form.\<close>

definition numbered_suffixes :: "string list" where
  "numbered_suffixes = [''-2'', ''-3'', ''-4'', ''-5'', ''-6'']"

text \<open>A database for concrete runs: it leaves text that is not ASCII as it is. The runs
  below are on ASCII text, where no database is consulted.\<close>

definition plain_database :: unicode_database where
  "plain_database =
     \<lparr>ucd_lower = (\<lambda>s. s), ucd_upper = (\<lambda>s. s), ucd_title = (\<lambda>s. s),
      ucd_capitalize = (\<lambda>s. s), ucd_isdigit = (\<lambda>s. False)\<rparr>"

section \<open>Templates as literal text and markers\<close>

text \<open>A template written as its segments: each segment is a literal text followed by the
  marker of a tag, and a final literal text ends the template. \<open>filled\<close> is the same text
  with every marker replaced by the text \<open>enc\<close> gives for its tag. \<open>value_of\<close> is the value
  that a combination gives to a tag: the one at the first position of the tag.\<close>

definition template_of :: "(string \<times> string) list \<Rightarrow> string \<Rightarrow> string" where
  "template_of segs final = concat (map (\<lambda>(lit, t). lit @ ''['' @ t @ '']'') segs) @ final"

definition filled :: "(string \<times> string) list \<Rightarrow> string \<Rightarrow> (string \<Rightarrow> string) \<Rightarrow> string" where
  "filled segs final enc = concat (map (\<lambda>(lit, t). lit @ enc t) segs) @ final"

definition value_of :: "string list \<Rightarrow> string list \<Rightarrow> string \<Rightarrow> string" where
  "value_of tags combo t = (case map_of (zip tags combo) t of Some v \<Rightarrow> v | None \<Rightarrow> [])"

definition plain_segments :: "(string \<times> string) list \<Rightarrow> string \<Rightarrow> bool" where
  "plain_segments segs final =
     (list_all (\<lambda>(lit, t). CHR ''['' \<notin> set lit \<and> t \<noteq> [] \<and> list_all is_alnum t) segs
      \<and> CHR ''['' \<notin> set final)"

text \<open>The text that stands for a tag once some tags have been given their values: the
  percent-encoded value for a tag among them, the marker itself for any other tag.\<close>

definition encoding_of :: "(string \<times> string) list \<Rightarrow> string \<Rightarrow> string" where
  "encoding_of ps t = (case map_of ps t of Some v \<Rightarrow> quote_py v [] | None \<Rightarrow> ''['' @ t @ '']'')"

section \<open>Marker tags\<close>

lemma extract_tags_alnum:
  "t \<in> set (extract_tags s) \<Longrightarrow> t \<noteq> [] \<and> list_all is_alnum t"
proof (induction s rule: extract_tags.induct)
  case 1
  then show ?case by simp
next
  case (2 c cs)
  show ?case
  proof (cases "c = CHR ''['' \<and> takeWhile is_alnum cs \<noteq> [] \<and> take 1 (dropWhile is_alnum cs) = '']''")
    case True
    with "2.prems" have "t = takeWhile is_alnum cs \<or> t \<in> set (extract_tags (drop 1 (dropWhile is_alnum cs)))"
      by (simp add: Let_def)
    then show ?thesis
    proof
      assume "t = takeWhile is_alnum cs"
      with True show ?thesis
        by (auto simp: list_all_iff dest: set_takeWhileD)
    next
      assume "t \<in> set (extract_tags (drop 1 (dropWhile is_alnum cs)))"
      with True "2.IH"(1) [OF refl refl] show ?thesis by blast
    qed
  next
    case False
    with "2.prems" have "t \<in> set (extract_tags cs)"
      by (auto simp: Let_def)
    with False "2.IH"(2) [OF refl refl] show ?thesis by blast
  qed
qed

text \<open>
  Claim C10. Every tag that \<open>extract_tags\<close> returns is a non-empty run of letters and
  digits, so \<open>valid_tags (extract_tags template)\<close> holds for every template. The branch of
  \<open>handle_tag_input\<close> that rejects a custom template for its tag characters is therefore
  never taken: a bracket pair around anything else is not a marker at all, as in
  \<open>x[a-b]y[ ]z[]\<close>, where no tag is found.
\<close>

theorem extracted_tags_always_valid:
  "valid_tags (extract_tags template)
   \<and> receive_template template \<noteq> Tags_Not_Alphanumeric
   \<and> extract_tags ''x[a-b]y[ ]z[]'' = []"
proof -
  have v: "valid_tags (extract_tags template)"
    unfolding valid_tags_def list_all_iff
    using extract_tags_alnum [of _ template] by (auto simp: list_all_iff)
  have e: "extract_tags ''x[a-b]y[ ]z[]'' = []"
    by (simp add: is_alnum_def ascii_upper_def ascii_lower_def ascii_digits_def)
  from v e show ?thesis by (simp add: receive_template_def Let_def)
qed

theorem extracted_tags_always_valid_witness:
  "valid_tags (extract_tags ''OB[V]/[a-b]/[T1]'')
   \<and> extract_tags ''OB[V]/[a-b]/[T1]'' = [''V'', ''T1'']
   \<and> receive_template ''OB[V]/[a-b]/[T1]'' = Template_Accepted [''V'', ''T1'']"
proof -
  have e: "extract_tags ''OB[V]/[a-b]/[T1]'' = [''V'', ''T1'']"
    by (simp add: is_alnum_def ascii_upper_def ascii_lower_def ascii_digits_def)
  from extracted_tags_always_valid [of "''OB[V]/[a-b]/[T1]''"] e
  show ?thesis by (simp add: receive_template_def Let_def)
qed

section \<open>Gacha names\<close>

text \<open>
  Claim C3. For the value \<open>tokenwheel\<close> the lower-cased text contains both \<open>token\<close> and
  \<open>wheel\<close>, but it has no separator, so \<open>re.split\<close> leaves it in one piece and the
  capitalised concatenation is \<open>Tokenwheel\<close>, which the title-case variant already gave.
  The expansion is the twelve strings below; \<open>TokenWheel\<close> is not among them, neither for
  \<open>tokenwheel\<close> nor for the docstring's example \<open>Tokenwheel\<close>.
\<close>

theorem tokenwheel_has_no_camel_case:
  "expand_gacha_values ucd [''tokenwheel''] =
     [''tokenwheel'', ''tokenwheel-2'', ''tokenwheel-3'', ''tokenwheel-4'', ''tokenwheel-5'',
      ''tokenwheel-6'', ''Tokenwheel'', ''Tokenwheel-2'', ''Tokenwheel-3'', ''Tokenwheel-4'',
      ''Tokenwheel-5'', ''Tokenwheel-6'']
   \<and> ''TokenWheel'' \<notin> set (expand_gacha_values ucd [''tokenwheel''])
   \<and> ''TokenWheel'' \<notin> set (expand_gacha_values ucd [''Tokenwheel''])"
  by code_simp

section \<open>The probe\<close>

text \<open>
  Claim C5. \<open>check_url\<close> never raises: its result is always a truth value. It first issues
  the HEAD request with the timeout 8 and, if that returns status 200, answers \<open>True\<close> with
  no further request. On any exception or any other status of the HEAD request it issues
  the GET request with the timeout 10 and answers whether that returned status 200; an
  exception of the GET request gives \<open>False\<close>.
\<close>

theorem check_url_never_raises:
  "check_url session url =
     (if session \<lparr>req_method = HEAD, req_url = url, req_timeout = 8\<rparr> = Inr 200
      then (Inr True, [\<lparr>req_method = HEAD, req_url = url, req_timeout = 8\<rparr>])
      else (Inr (session \<lparr>req_method = GET, req_url = url, req_timeout = 10\<rparr> = Inr 200),
            [\<lparr>req_method = HEAD, req_url = url, req_timeout = 8\<rparr>,
             \<lparr>req_method = GET, req_url = url, req_timeout = 10\<rparr>]))
   \<and> (\<exists>live. fst (check_url session url) = Inr live)"
  by (auto simp: check_url_def Let_def split: sum.splits option.splits)

theorem check_url_never_raises_witness:
  "check_url (\<lambda>r. if req_method r = HEAD then Inl Timeout else Inr 200) ''http://x/a.jpg'' =
     (Inr True, [\<lparr>req_method = HEAD, req_url = ''http://x/a.jpg'', req_timeout = 8\<rparr>,
                 \<lparr>req_method = GET, req_url = ''http://x/a.jpg'', req_timeout = 10\<rparr>])
   \<and> check_url (\<lambda>r. if req_method r = HEAD then Inr 404 else Inl Connection_Failure) ''http://x/a.jpg'' =
     (Inr False, [\<lparr>req_method = HEAD, req_url = ''http://x/a.jpg'', req_timeout = 8\<rparr>,
                  \<lparr>req_method = GET, req_url = ''http://x/a.jpg'', req_timeout = 10\<rparr>])"
  using check_url_never_raises [of "\<lambda>r. if req_method r = HEAD then Inl Timeout else Inr 200" "''http://x/a.jpg''"]
        check_url_never_raises [of "\<lambda>r. if req_method r = HEAD then Inr 404 else Inl Connection_Failure" "''http://x/a.jpg''"]
  by simp

section \<open>De-duplication and the prepared lists\<close>

lemma uniq_loop_set:
  "set (uniq_loop xs seen uniq) = set uniq \<union> (set xs - seen)"
  by (induction xs arbitrary: seen uniq) auto

lemma uniq_loop_distinct:
  "distinct xs \<Longrightarrow> set xs \<inter> seen = {} \<Longrightarrow> uniq_loop xs seen uniq = uniq @ xs"
  by (induction xs arbitrary: seen uniq) auto

lemma expand_gacha_name_base_nonempty: "expand_gacha_name_base ucd v \<noteq> []"
proof -
  have "v \<in> set (expand_gacha_name_base ucd v)"
    by (simp add: expand_gacha_name_base_def Let_def uniq_loop_set append_new_def)
  then show ?thesis by auto
qed

lemma expand_gacha_values_nonempty:
  "vals \<noteq> [] \<Longrightarrow> expand_gacha_values ucd vals \<noteq> []"
proof -
  assume "vals \<noteq> []"
  then obtain v vs where vals: "vals = v # vs" by (cases vals) auto
  obtain b bs where b: "expand_gacha_name_base ucd v = b # bs"
    using expand_gacha_name_base_nonempty [of ucd v] by (cases "expand_gacha_name_base ucd v") auto
  have "b \<in> set (expand_gacha_values ucd vals)"
    by (simp add: expand_gacha_values_def Let_def uniq_loop_set vals b suffix_forms_def)
  then show ?thesis by auto
qed

lemma working_list_empty_iff:
  "working_list ucd tv t = [] \<longleftrightarrow> get_values tv t = []"
proof (cases "get_values tv t = []")
  case True
  then show ?thesis
    by (simp add: working_list_def expand_gacha_values_def)
next
  case False
  then show ?thesis
    by (simp add: working_list_def expand_gacha_values_nonempty)
qed

lemma prepare_lists_None:
  "prepare_lists ucd tv ts acc = None \<longleftrightarrow> (\<exists>t\<in>set ts. get_values tv t = [])"
  by (induction ts arbitrary: acc) (auto simp: Let_def)

lemma prepare_lists_Some:
  "\<forall>t\<in>set ts. get_values tv t \<noteq> [] \<Longrightarrow>
   prepare_lists ucd tv ts acc = Some (acc @ map (working_list ucd tv) ts)"
  by (induction ts arbitrary: acc) (auto simp: Let_def working_list_def)

lemma prod_list_pos:
  "\<forall>n\<in>set ns. 0 < n \<Longrightarrow> 0 < prod_list (ns :: nat list)"
  by (induction ns) auto


lemma count_total_overflow:
  "\<forall>l\<in>set ls. l \<noteq> [] \<Longrightarrow> n \<le> MAX_COMBINATIONS \<Longrightarrow>
   MAX_COMBINATIONS < n * prod_list (map length ls) \<Longrightarrow>
   \<exists>j<length ls.
      count_total n ls = Inl (ValueError (too_many_message (n * prod_list (map length (take (Suc j) ls)))))
      \<and> MAX_COMBINATIONS < n * prod_list (map length (take (Suc j) ls))
      \<and> n * prod_list (map length (take j ls)) \<le> MAX_COMBINATIONS"
proof (induction ls arbitrary: n)
  case Nil
  then show ?case by simp
next
  case (Cons l ls)
  show ?case
  proof (cases "MAX_COMBINATIONS < n * length l")
    case True
    with Cons.prems(2) have
      "count_total n (l # ls) = Inl (ValueError (too_many_message (n * prod_list (map length (take (Suc 0) (l # ls))))))
       \<and> MAX_COMBINATIONS < n * prod_list (map length (take (Suc 0) (l # ls)))
       \<and> n * prod_list (map length (take 0 (l # ls))) \<le> MAX_COMBINATIONS"
      by (simp add: Let_def)
    then show ?thesis by blast
  next
    case False
    then have le: "n * length l \<le> MAX_COMBINATIONS" by simp
    from Cons.prems have "\<exists>j<length ls.
      count_total (n * length l) ls =
        Inl (ValueError (too_many_message (n * length l * prod_list (map length (take (Suc j) ls)))))
      \<and> MAX_COMBINATIONS < n * length l * prod_list (map length (take (Suc j) ls))
      \<and> n * length l * prod_list (map length (take j ls)) \<le> MAX_COMBINATIONS"
      using le by (intro Cons.IH) (auto simp: mult.assoc)
    then obtain j where j: "j < length ls"
      "count_total (n * length l) ls =
        Inl (ValueError (too_many_message (n * length l * prod_list (map length (take (Suc j) ls)))))"
      "MAX_COMBINATIONS < n * length l * prod_list (map length (take (Suc j) ls))"
      "n * length l * prod_list (map length (take j ls)) \<le> MAX_COMBINATIONS"
      by blast
    have "Suc j < length (l # ls)" using j(1) by simp
    moreover have "count_total n (l # ls) =
        Inl (ValueError (too_many_message (n * prod_list (map length (take (Suc (Suc j)) (l # ls))))))"
      using False j(2) by (simp add: Let_def mult.assoc)
    moreover have "MAX_COMBINATIONS < n * prod_list (map length (take (Suc (Suc j)) (l # ls)))"
      using j(3) by (simp add: mult.assoc)
    moreover have "n * prod_list (map length (take (Suc j) (l # ls))) \<le> MAX_COMBINATIONS"
      using j(4) by (simp add: mult.assoc)
    ultimately show ?thesis by blast
  qed
qed

lemma length_itertools_product:
  "length (itertools_product ls) = prod_list (map length ls)"
  by (induction ls) (simp_all add: length_concat comp_def sum_list_triv)

section \<open>Expansion: number of URLs and the ceiling\<close>

lemma generate_impl_cases:
  assumes tags: "extract_tags template \<noteq> []"
    and vals: "\<forall>t\<in>set (extract_tags template). get_values tv t \<noteq> []"
  shows "generate_urls_from_template ucd template tv =
     (case count_total 1 (map (working_list ucd tv) (extract_tags template)) of
        Inl e \<Rightarrow> Inl e
      | Inr running \<Rightarrow>
          Inr (map (substitute template (extract_tags template))
                 (itertools_product (map (working_list ucd tv) (extract_tags template)))))"
  using tags prepare_lists_Some [OF vals, where acc = "[]"]
  by (simp add: generate_urls_from_template_def generate_urls_from_template_impl_def Let_def)



text \<open>Concrete runs.\<close>

lemmas char_class_defs =
  is_alnum_def is_cased_def is_ascii_def ascii_upper_def ascii_lower_def ascii_digits_def
  to_upper_def to_lower_def upper_py_def lower_py_def















section \<open>Expansion: the empty candidate set\<close>

lemma get_values_empty_iff:
  "get_values tv t = [] \<longleftrightarrow> tv t = None \<or> tv t = Some []"
  by (cases "tv t") (simp_all add: get_values_def)

text \<open>
  Claim C8. The generation returns the empty list, and not an error, exactly when the
  template has no marker or some tag of the template is missing from the mapping or mapped
  to the empty list. The empty list is a result of its own: it is never the
  too-many-combinations error, and the conversation then answers that nothing was generated
  without starting the search, which is a different answer from the search's "not found".
\<close>

theorem no_marker_or_missing_value_gives_empty:
  "((extract_tags template = []
      \<or> (\<exists>t\<in>set (extract_tags template). tv t = None \<or> tv t = Some []))
     \<longleftrightarrow> generate_urls_from_template ucd template tv = Inr [])
   \<and> (generate_urls_from_template ucd template tv = Inr [] \<longrightarrow>
        (\<forall>e. generate_urls_from_template ucd template tv \<noteq> Inl e)
        \<and> (template \<noteq> ''BANNER'' \<longrightarrow>
             finish_request ucd find_first_live_url template tv = Nothing_Generated))
   \<and> Nothing_Generated \<noteq> Not_Found
   \<and> (\<forall>message. Nothing_Generated \<noteq> Generation_Error message)"
proof -
  let ?tags = "extract_tags template"
  have missing: "(\<exists>t\<in>set ?tags. tv t = None \<or> tv t = Some [])
      \<longleftrightarrow> (\<exists>t\<in>set ?tags. get_values tv t = [])"
    by (simp only: get_values_empty_iff)
  have a: "?tags = [] \<Longrightarrow> generate_urls_from_template ucd template tv = Inr []"
    by (simp add: generate_urls_from_template_def generate_urls_from_template_impl_def)
  have b: "\<exists>t\<in>set ?tags. get_values tv t = [] \<Longrightarrow> generate_urls_from_template ucd template tv = Inr []"
  proof -
    assume m: "\<exists>t\<in>set ?tags. get_values tv t = []"
    then have "prepare_lists ucd tv ?tags [] = None" by (simp add: prepare_lists_None)
    then show ?thesis
      by (simp add: generate_urls_from_template_def generate_urls_from_template_impl_def Let_def)
  qed
  have c: "generate_urls_from_template ucd template tv \<noteq> Inr []"
    if tags: "?tags \<noteq> []" and vals: "\<forall>t\<in>set ?tags. get_values tv t \<noteq> []"
  proof -
    let ?ls = "map (working_list ucd tv) ?tags"
    have "\<forall>n\<in>set (map length ?ls). 0 < n"
      using vals by (simp add: working_list_empty_iff)
    then have "0 < prod_list (map length ?ls)" by (rule prod_list_pos)
    then have ne: "itertools_product ?ls \<noteq> []"
      using length_itertools_product [of ?ls] by auto
    show ?thesis
      using generate_impl_cases [OF tags vals] ne
      by (cases "count_total 1 ?ls") simp_all
  qed
  have iff: "(?tags = [] \<or> (\<exists>t\<in>set ?tags. tv t = None \<or> tv t = Some []))
     \<longleftrightarrow> generate_urls_from_template ucd template tv = Inr []"
    unfolding missing using a b c by blast
  have fin: "generate_urls_from_template ucd template tv = Inr [] \<Longrightarrow> template \<noteq> ''BANNER'' \<Longrightarrow>
      finish_request ucd find_first_live_url template tv = Nothing_Generated"
    by (simp add: finish_request_def build_urls_def)
  from iff fin show ?thesis by auto
qed

theorem no_marker_or_missing_value_gives_empty_witness:
  "generate_urls_from_template plain_database ''OB[V]/[T].jpg'' [''V'' \<mapsto> [''1'', ''2'']] = Inr []
   \<and> generate_urls_from_template plain_database ''no marker here'' [''V'' \<mapsto> [''1'', ''2'']] = Inr []
   \<and> finish_request plain_database (\<lambda>urls. None) ''OB[V]/[T].jpg'' [''V'' \<mapsto> [''1'', ''2'']] = Nothing_Generated"
proof -
  have t1: "extract_tags ''OB[V]/[T].jpg'' = [''V'', ''T'']"
    by (simp add: char_class_defs)
  have t2: "extract_tags ''no marker here'' = []"
    by (simp add: char_class_defs)
  show ?thesis
    using no_marker_or_missing_value_gives_empty
            [where ucd = plain_database and template = "''OB[V]/[T].jpg''"
               and tv = "[''V'' \<mapsto> [''1'', ''2'']]" and find_first_live_url = "\<lambda>urls. None",
             unfolded t1]
          no_marker_or_missing_value_gives_empty
            [where ucd = plain_database and template = "''no marker here''"
               and tv = "[''V'' \<mapsto> [''1'', ''2'']]" and find_first_live_url = "\<lambda>urls. None",
             unfolded t2]
    by simp
qed

section \<open>The two definitions of the generation\<close>

lemma prepare_lists_first_eq:
  "prepare_lists_first ucd tv ts acc = prepare_lists ucd tv ts acc"
  by (induction ts arbitrary: acc) (simp_all add: Let_def)

lemma count_total_first_rel:
  "(\<exists>r. count_total_first n ls = Inr r \<and> count_total n ls = Inr r)
   \<or> (\<exists>k. count_total_first n ls = Inl (ValueError (too_many_message_first k))
          \<and> count_total n ls = Inl (ValueError (too_many_message k))
          \<and> MAX_COMBINATIONS < k)"
proof (induction ls arbitrary: n)
  case Nil
  show ?case by simp
next
  case (Cons l ls)
  show ?case
  proof (cases "MAX_COMBINATIONS < n * length l")
    case True
    then have "count_total_first n (l # ls) = Inl (ValueError (too_many_message_first (n * length l)))
        \<and> count_total n (l # ls) = Inl (ValueError (too_many_message (n * length l)))
        \<and> MAX_COMBINATIONS < n * length l"
      by (simp add: Let_def)
    then show ?thesis by blast
  next
    case False
    then have "count_total_first n (l # ls) = count_total_first (n * length l) ls"
      and "count_total n (l # ls) = count_total (n * length l) ls"
      by (simp_all add: Let_def)
    with Cons.IH [of "n * length l"] show ?thesis by simp
  qed
qed

text \<open>
  Claim C9. The first definition of \<open>generate_urls_from_template\<close> (shadowed by the later
  one) and \<open>__generate_urls_from_template_impl\<close> agree on every template and mapping:
  either both return the same URL list, or both raise the combination overflow, with the
  same count in their messages. The branch of the first definition for an all-digit tag
  \<open>T\<close> appends the raw values, as the default branch does. (The wording of the two
  messages differs; the count they carry does not.)
\<close>

theorem first_definition_agrees_with_impl:
  "(\<exists>urls. generate_urls_from_template_first ucd template tv = Inr urls
          \<and> generate_urls_from_template_impl ucd template tv = Inr urls)
   \<or> (\<exists>k. generate_urls_from_template_first ucd template tv = Inl (ValueError (too_many_message_first k))
          \<and> generate_urls_from_template_impl ucd template tv = Inl (ValueError (too_many_message k))
          \<and> MAX_COMBINATIONS < k)"
proof (cases "extract_tags template = []")
  case True
  then show ?thesis
    by (simp add: generate_urls_from_template_first_def generate_urls_from_template_impl_def)
next
  case tags: False
  show ?thesis
  proof (cases "prepare_lists ucd tv (extract_tags template) []")
    case None
    with tags show ?thesis
      by (simp add: generate_urls_from_template_first_def generate_urls_from_template_impl_def
          prepare_lists_first_eq)
  next
    case (Some ls)
    from count_total_first_rel [of 1 ls] show ?thesis
    proof
      assume "\<exists>r. count_total_first 1 ls = Inr r \<and> count_total 1 ls = Inr r"
      then obtain r where "count_total_first 1 ls = Inr r" "count_total 1 ls = Inr r" by blast
      with tags Some show ?thesis
        by (simp add: generate_urls_from_template_first_def generate_urls_from_template_impl_def
            prepare_lists_first_eq substitute_def)
    next
      assume "\<exists>k. count_total_first 1 ls = Inl (ValueError (too_many_message_first k))
          \<and> count_total 1 ls = Inl (ValueError (too_many_message k)) \<and> MAX_COMBINATIONS < k"
      then obtain k where k: "count_total_first 1 ls = Inl (ValueError (too_many_message_first k))"
        "count_total 1 ls = Inl (ValueError (too_many_message k))" "MAX_COMBINATIONS < k"
        by blast
      have "generate_urls_from_template_first ucd template tv = Inl (ValueError (too_many_message_first k))"
        using tags Some k(1)
        by (simp add: generate_urls_from_template_first_def prepare_lists_first_eq)
      moreover have "generate_urls_from_template_impl ucd template tv = Inl (ValueError (too_many_message k))"
        using tags Some k(2)
        by (simp add: generate_urls_from_template_impl_def)
      ultimately show ?thesis using k(3) by blast
    qed
  qed
qed

lemma generate_impl_T:
  "generate_urls_from_template_impl ucd ''x[T]/[G]'' [''T'' \<mapsto> [''12'', ''7''], ''G'' \<mapsto> [''9'']]
     = Inr [''x12/9'', ''x12/9-2'', ''x12/9-3'', ''x12/9-4'', ''x12/9-5'', ''x12/9-6'',
            ''x7/9'', ''x7/9-2'', ''x7/9-3'', ''x7/9-4'', ''x7/9-5'', ''x7/9-6'']"
  by code_simp

theorem first_definition_agrees_with_impl_witness:
  "generate_urls_from_template_first plain_database ''x[T]/[G]'' [''T'' \<mapsto> [''12'', ''7''], ''G'' \<mapsto> [''9'']]
     = Inr [''x12/9'', ''x12/9-2'', ''x12/9-3'', ''x12/9-4'', ''x12/9-5'', ''x12/9-6'',
            ''x7/9'', ''x7/9-2'', ''x7/9-3'', ''x7/9-4'', ''x7/9-5'', ''x7/9-6'']"
  using first_definition_agrees_with_impl
          [where ucd = plain_database and template = "''x[T]/[G]''"
             and tv = "[''T'' \<mapsto> [''12'', ''7''], ''G'' \<mapsto> [''9'']]"]
  unfolding generate_impl_T by auto

section \<open>Percent-encoding of the substituted values\<close>

lemma slash_not_always_safe: "CHR ''/'' \<notin> set always_safe"
  by (simp add: always_safe_def ascii_upper_def ascii_lower_def ascii_digits_def)

lemma slash_not_hex: "k < 16 \<Longrightarrow> hex_digits ! k \<noteq> CHR ''/''"
proof -
  assume "k < 16"
  then have "hex_digits ! k \<in> set hex_digits"
    by (intro nth_mem) (simp add: hex_digits_def)
  moreover have "CHR ''/'' \<notin> set hex_digits" by (simp add: hex_digits_def)
  ultimately show ?thesis by metis
qed

lemma of_char_less_256: "(of_char (c :: char) :: nat) < 256"
proof -
  have "(of_char c :: nat) = of_char c mod 256" by (rule of_char_mod_256 [symmetric])
  also have "\<dots> < 256" by simp
  finally show ?thesis .
qed

lemma slash_not_in_percent_byte: "CHR ''/'' \<notin> set (percent_byte c)"
proof -
  have hi: "(of_char c :: nat) div 16 < 16"
    using of_char_less_256 [of c] by presburger
  have lo: "(of_char c :: nat) mod 16 < 16" by simp
  show ?thesis
    using slash_not_hex [OF hi] slash_not_hex [OF lo]
    by (auto simp: percent_byte_def)
qed

lemma slash_not_in_quote: "CHR ''/'' \<notin> set (quote_py v [])"
  using slash_not_always_safe slash_not_in_percent_byte
  by (auto simp: quote_py_def)

lemma percent_byte_slash: "percent_byte CHR ''/'' = ''%2F''"
  by (simp add: percent_byte_def hex_digits_def)

lemma quote_py_append: "quote_py (a @ b) safe = quote_py a safe @ quote_py b safe"
  by (simp add: quote_py_def)

lemma quote_py_slash: "quote_py ''/'' [] = ''%2F''"
  using slash_not_always_safe by (simp add: quote_py_def percent_byte_slash)

lemma drop_length_Cons: "old \<noteq> [] \<Longrightarrow> drop (length old) (c # cs) = drop (length old - 1) cs"
  by (cases old) simp_all

lemma count_replace_py:
  "old \<noteq> [] \<Longrightarrow> x \<notin> set old \<Longrightarrow> x \<notin> set new \<Longrightarrow>
   count_list (replace_py old new s) x = count_list s x"
proof (induction old new s rule: replace_py.induct)
  case (1 old new)
  then show ?case by simp
next
  case (2 old new c cs)
  show ?case
  proof (cases "take (length old) (c # cs) = old")
    case True
    have "count_list (c # cs) x
        = count_list (take (length old) (c # cs)) x + count_list (drop (length old) (c # cs)) x"
      by (metis append_take_drop_id count_list_append)
    also have "\<dots> = count_list (drop (length old - 1) cs) x"
      using True "2.prems" by (simp add: drop_length_Cons)
    finally have split: "count_list (c # cs) x = count_list (drop (length old - 1) cs) x" .
    have "count_list (replace_py old new (c # cs)) x
        = count_list (replace_py old new (drop (length old - 1) cs)) x"
      using True "2.prems" by simp
    also have "\<dots> = count_list (drop (length old - 1) cs) x"
      using "2.IH"(2) [OF "2.prems"(1) True "2.prems"] .
    finally show ?thesis using split by simp
  next
    case False
    have "count_list (replace_py old new cs) x = count_list cs x"
      using "2.IH"(3) [OF "2.prems"(1) False "2.prems"] .
    with False "2.prems" show ?thesis by simp
  qed
qed

lemma count_fold_replace:
  "\<forall>(t, v)\<in>set ps. CHR ''/'' \<notin> set t \<Longrightarrow>
   count_list (fold (\<lambda>(t, v) u. replace_py (''['' @ t @ '']'') (quote_py v []) u) ps s) CHR ''/''
     = count_list s CHR ''/''"
proof (induction ps arbitrary: s)
  case Nil
  show ?case by simp
next
  case (Cons p ps)
  obtain t v where p: "p = (t, v)" by (cases p)
  from Cons.prems p have t: "CHR ''/'' \<notin> set t" by simp
  have step: "count_list (replace_py (''['' @ t @ '']'') (quote_py v []) s) CHR ''/''
      = count_list s CHR ''/''"
    by (rule count_replace_py) (use t slash_not_in_quote in simp_all)
  from Cons.prems have "\<forall>(t, v)\<in>set ps. CHR ''/'' \<notin> set t" by simp
  from Cons.IH [OF this] step show ?case by (simp add: p)
qed

lemma slash_not_alnum: "\<not> is_alnum CHR ''/''"
  by (simp add: is_alnum_def ascii_upper_def ascii_lower_def ascii_digits_def)

lemma count_substitute:
  "count_list (substitute template (extract_tags template) combo) CHR ''/''
     = count_list template CHR ''/''"
proof -
  have "\<forall>(t, v)\<in>set (zip (extract_tags template) combo). CHR ''/'' \<notin> set t"
  proof -
    have "CHR ''/'' \<notin> set t" if "t \<in> set (extract_tags template)" for t
      using extract_tags_alnum [OF that] slash_not_alnum by (auto simp: list_all_iff)
    then show ?thesis by (auto dest: set_zip_leftD)
  qed
  then show ?thesis unfolding substitute_def by (rule count_fold_replace)
qed

lemma generate_urls_are_substitutions:
  "generate_urls_from_template ucd template tv = Inr urls \<Longrightarrow> u \<in> set urls \<Longrightarrow>
   \<exists>combo. u = substitute template (extract_tags template) combo"
  by (auto simp: generate_urls_from_template_def generate_urls_from_template_impl_def Let_def
      split: if_splits option.splits sum.splits)

lemma replace_py_skip:
  "old \<noteq> [] \<Longrightarrow> hd old \<notin> set a \<Longrightarrow> replace_py old new (a @ s) = a @ replace_py old new s"
proof (induction a)
  case Nil
  show ?case by simp
next
  case (Cons c a)
  from Cons.prems obtain y ys where old: "old = y # ys" by (cases old) auto
  with Cons.prems have "c \<noteq> y" by auto
  then have "take (length old) (c # a @ s) \<noteq> old" by (simp add: old)
  with Cons show ?case by simp
qed

lemma replace_py_match:
  "old \<noteq> [] \<Longrightarrow> replace_py old new (old @ s) = new @ replace_py old new s"
proof -
  assume "old \<noteq> []"
  then obtain y ys where old: "old = y # ys" by (cases old) auto
  show ?thesis by (simp add: old)
qed

lemma open_bracket_not_in_percent_byte: "CHR ''['' \<notin> set (percent_byte c)"
proof -
  have hex: "hex_digits ! k \<noteq> CHR ''[''" if "k < 16" for k
  proof -
    from that have "hex_digits ! k \<in> set hex_digits"
      by (intro nth_mem) (simp add: hex_digits_def)
    moreover have "CHR ''['' \<notin> set hex_digits" by (simp add: hex_digits_def)
    ultimately show ?thesis by metis
  qed
  have hi: "(of_char c :: nat) div 16 < 16"
    using of_char_less_256 [of c] by presburger
  have lo: "(of_char c :: nat) mod 16 < 16" by simp
  show ?thesis using hex [OF hi] hex [OF lo] by (auto simp: percent_byte_def)
qed

lemma open_bracket_not_in_quote: "CHR ''['' \<notin> set (quote_py v [])"
proof -
  have "CHR ''['' \<notin> set always_safe"
    by (simp add: always_safe_def ascii_upper_def ascii_lower_def ascii_digits_def)
  then show ?thesis
    using open_bracket_not_in_percent_byte by (auto simp: quote_py_def)
qed

section \<open>Substitution in a template of literal text and markers\<close>

lemma extract_tags_skip:
  "CHR ''['' \<notin> set a \<Longrightarrow> extract_tags (a @ s) = extract_tags s"
  by (induction a) (auto simp: Let_def)

lemma close_bracket_not_alnum: "\<not> is_alnum CHR '']''"
  by (simp add: is_alnum_def ascii_upper_def ascii_lower_def ascii_digits_def)

lemma open_bracket_not_alnum: "\<not> is_alnum CHR ''[''"
  by (simp add: is_alnum_def ascii_upper_def ascii_lower_def ascii_digits_def)

lemma extract_tags_marker:
  assumes "t \<noteq> []" and "list_all is_alnum t"
  shows "extract_tags (''['' @ t @ '']'' @ s) = t # extract_tags s"
proof -
  from assms(2) have al: "\<And>x. x \<in> set t \<Longrightarrow> is_alnum x" by (simp add: list_all_iff)
  have tw: "takeWhile is_alnum (t @ CHR '']'' # s) = t"
    using al close_bracket_not_alnum by (simp add: takeWhile_append2)
  have dw: "dropWhile is_alnum (t @ CHR '']'' # s) = CHR '']'' # s"
    using al close_bracket_not_alnum by (simp add: dropWhile_append2)
  show ?thesis using assms(1) by (simp add: Let_def tw dw)
qed

lemma extract_tags_template_of:
  "plain_segments segs final \<Longrightarrow> extract_tags (template_of segs final) = map snd segs"
proof (induction segs)
  case Nil
  then have "CHR ''['' \<notin> set final" by (simp add: plain_segments_def)
  from extract_tags_skip [OF this, of "[]"] show ?case by (simp add: template_of_def)
next
  case (Cons p segs)
  obtain lit t where p: "p = (lit, t)" by (cases p)
  from Cons.prems p have lit: "CHR ''['' \<notin> set lit" and t: "t \<noteq> []" "list_all is_alnum t"
    and rest: "plain_segments segs final"
    by (simp_all add: plain_segments_def)
  have "template_of (p # segs) final = lit @ (''['' @ t @ '']'' @ template_of segs final)"
    by (simp add: template_of_def p)
  then have "extract_tags (template_of (p # segs) final)
      = extract_tags (''['' @ t @ '']'' @ template_of segs final)"
    using extract_tags_skip [OF lit] by simp
  also have "\<dots> = t # extract_tags (template_of segs final)"
    by (rule extract_tags_marker [OF t])
  finally show ?case using Cons.IH [OF rest] by (simp add: p)
qed

lemma marker_prefix_eq:
  assumes t: "CHR '']'' \<notin> set t" and a: "CHR '']'' \<notin> set a"
    and eq: "take (length (a @ '']'')) (t @ '']'' @ s) = a @ '']''"
  shows "t = a"
proof -
  let ?n = "length (a @ '']'')" and ?x = "t @ '']'' @ s"
  have "take ?n ?x @ drop ?n ?x = ?x" by (rule append_take_drop_id)
  then have "(a @ '']'') @ drop ?n ?x = ?x" by (simp only: eq)
  then have "t @ (CHR '']'' # s) = a @ (CHR '']'' # drop ?n ?x)" by simp
  then obtain r where "t @ (CHR '']'' # s) = a @ (CHR '']'' # r)" by blast
  then obtain us where
    "(t = a @ us \<and> us @ (CHR '']'' # s) = CHR '']'' # r)
     \<or> (t @ us = a \<and> CHR '']'' # s = us @ (CHR '']'' # r))"
    unfolding append_eq_append_conv2 by blast
  then show ?thesis
  proof
    assume c: "t = a @ us \<and> us @ (CHR '']'' # s) = CHR '']'' # r"
    show ?thesis
    proof (cases us)
      case Nil
      with c show ?thesis by simp
    next
      case (Cons u us')
      with c have "u = CHR '']''" by simp
      with c Cons t show ?thesis by simp
    qed
  next
    assume c: "t @ us = a \<and> CHR '']'' # s = us @ (CHR '']'' # r)"
    show ?thesis
    proof (cases us)
      case Nil
      with c show ?thesis by simp
    next
      case (Cons u us')
      with c have "u = CHR '']''" by simp
      with c Cons a show ?thesis by auto
    qed
  qed
qed

lemma alnum_no_brackets:
  "list_all is_alnum t \<Longrightarrow> CHR ''['' \<notin> set t \<and> CHR '']'' \<notin> set t"
  using open_bracket_not_alnum close_bracket_not_alnum by (auto simp: list_all_iff)

lemma replace_py_other_marker:
  assumes t: "list_all is_alnum t" and a: "list_all is_alnum a" and ne: "t \<noteq> a"
  shows "replace_py (''['' @ a @ '']'') new (''['' @ t @ '']'' @ s)
         = ''['' @ t @ '']'' @ replace_py (''['' @ a @ '']'') new s"
proof -
  let ?old = "''['' @ a @ '']''"
  have nomatch: "take (length ?old) (CHR ''['' # t @ '']'' @ s) \<noteq> ?old"
  proof
    assume "take (length ?old) (CHR ''['' # t @ '']'' @ s) = ?old"
    then have "take (length (a @ '']'')) (t @ '']'' @ s) = a @ '']''" by simp
    from marker_prefix_eq [OF _ _ this] alnum_no_brackets [OF t] alnum_no_brackets [OF a] ne
    show False by blast
  qed
  have "replace_py ?old new (CHR ''['' # t @ '']'' @ s)
      = CHR ''['' # replace_py ?old new (t @ '']'' @ s)"
    using nomatch by simp
  also have "replace_py ?old new (t @ '']'' @ s) = (t @ '']'') @ replace_py ?old new s"
    using replace_py_skip [of ?old "t @ '']''" new s] alnum_no_brackets [OF t] by simp
  finally show ?thesis by simp
qed

lemma marker_eq_iff: "''['' @ t @ '']'' = ''['' @ a @ '']'' \<longleftrightarrow> t = a"
  by simp

lemma replace_py_filled:
  assumes segs: "list_all (\<lambda>(lit, t). CHR ''['' \<notin> set lit \<and> t \<noteq> [] \<and> list_all is_alnum t) segs"
    and final: "CHR ''['' \<notin> set final"
    and a: "list_all is_alnum a"
    and enc: "\<And>t. enc t = ''['' @ t @ '']'' \<or> CHR ''['' \<notin> set (enc t)"
  shows "replace_py (''['' @ a @ '']'') new (filled segs final enc)
         = filled segs final (\<lambda>t. if enc t = ''['' @ a @ '']'' then new else enc t)"
  using segs
proof (induction segs)
  case Nil
  from replace_py_skip [of "''['' @ a @ '']''" final new "[]"] final
  show ?case by (simp add: filled_def)
next
  case (Cons p segs)
  let ?old = "''['' @ a @ '']''"
  let ?enc' = "\<lambda>t. if enc t = ?old then new else enc t"
  obtain lit t where p: "p = (lit, t)" by (cases p)
  from Cons.prems p have lit: "CHR ''['' \<notin> set lit" and t: "list_all is_alnum t"
    and rest: "list_all (\<lambda>(lit, t). CHR ''['' \<notin> set lit \<and> t \<noteq> [] \<and> list_all is_alnum t) segs"
    by simp_all
  have IH: "replace_py ?old new (filled segs final enc) = filled segs final ?enc'"
    by (rule Cons.IH [OF rest])
  have shape: "filled (p # segs) final f = lit @ f t @ filled segs final f" for f
    by (simp add: filled_def p)
  have skip_lit: "replace_py ?old new (lit @ x) = lit @ replace_py ?old new x" for x
    using replace_py_skip [of ?old lit new x] lit by simp
  have mid: "replace_py ?old new (enc t @ filled segs final enc) = ?enc' t @ filled segs final ?enc'"
  proof (cases "enc t = ?old")
    case True
    have "replace_py ?old new (?old @ filled segs final enc)
        = new @ replace_py ?old new (filled segs final enc)"
      by (rule replace_py_match) simp
    with True IH show ?thesis by simp
  next
    case False
    show ?thesis
    proof (cases "enc t = ''['' @ t @ '']''")
      case True
      with False have "t \<noteq> a" by auto
      from replace_py_other_marker [OF t a this, of new "filled segs final enc"] True False IH
      show ?thesis by simp
    next
      case nomarker: False
      with enc [of t] have "CHR ''['' \<notin> set (enc t)" by blast
      with replace_py_skip [of ?old "enc t" new "filled segs final enc"] False IH
      show ?thesis by simp
    qed
  qed
  show ?case unfolding shape skip_lit mid ..
qed

lemma open_bracket_in_marker: "CHR ''['' \<in> set (''['' @ a @ '']'')"
  by simp

lemma encoding_of_step:
  "(\<lambda>t. if encoding_of ps t = ''['' @ a @ '']'' then quote_py v [] else encoding_of ps t)
   = encoding_of (ps @ [(a, v)])"
proof
  fix t
  show "(if encoding_of ps t = ''['' @ a @ '']'' then quote_py v [] else encoding_of ps t)
      = encoding_of (ps @ [(a, v)]) t"
  proof (cases "map_of ps t")
    case None
    then show ?thesis by (auto simp: encoding_of_def map_add_def)
  next
    case (Some w)
    have "quote_py w [] \<noteq> ''['' @ a @ '']''"
      using open_bracket_not_in_quote [of w] open_bracket_in_marker [of a] by metis
    with Some show ?thesis by (simp add: encoding_of_def map_add_def)
  qed
qed

lemma encoding_of_shape:
  "encoding_of ps t = ''['' @ t @ '']'' \<or> CHR ''['' \<notin> set (encoding_of ps t)"
  using open_bracket_not_in_quote by (cases "map_of ps t") (simp_all add: encoding_of_def)

lemma fold_replace_filled:
  assumes "plain_segments segs final" and "\<forall>(a, v)\<in>set qs. list_all is_alnum a"
  shows "fold (\<lambda>(t, v) u. replace_py (''['' @ t @ '']'') (quote_py v []) u) qs
           (filled segs final (encoding_of ps))
         = filled segs final (encoding_of (ps @ qs))"
  using assms(2)
proof (induction qs arbitrary: ps)
  case Nil
  show ?case by simp
next
  case (Cons q qs)
  obtain a v where q: "q = (a, v)" by (cases q)
  from Cons.prems q have a: "list_all is_alnum a" and rest: "\<forall>(a, v)\<in>set qs. list_all is_alnum a"
    by simp_all
  from assms(1) have segs: "list_all (\<lambda>(lit, t). CHR ''['' \<notin> set lit \<and> t \<noteq> [] \<and> list_all is_alnum t) segs"
    and final: "CHR ''['' \<notin> set final"
    by (simp_all add: plain_segments_def)
  have "replace_py (''['' @ a @ '']'') (quote_py v []) (filled segs final (encoding_of ps))
      = filled segs final (encoding_of (ps @ [(a, v)]))"
    using replace_py_filled [OF segs final a encoding_of_shape [of ps], of "quote_py v []"]
    by (simp only: encoding_of_step)
  with Cons.IH [OF rest, of "ps @ [(a, v)]"] show ?case by (simp add: q)
qed

lemma filled_cong:
  "\<forall>(lit, t)\<in>set segs. f t = g t \<Longrightarrow> filled segs final f = filled segs final g"
  by (induction segs) (auto simp: filled_def)

lemma template_of_filled: "template_of segs final = filled segs final (encoding_of [])"
  by (simp add: template_of_def filled_def encoding_of_def)

lemma substitute_template_of:
  assumes ok: "plain_segments segs final" and len: "length combo = length segs"
  shows "substitute (template_of segs final) (map snd segs) combo
         = filled segs final (\<lambda>t. quote_py (value_of (map snd segs) combo t) [])"
proof -
  let ?tags = "map snd segs"
  have al: "\<forall>(a, v)\<in>set (zip ?tags combo). list_all is_alnum a"
  proof -
    have "list_all is_alnum a" if "a \<in> set ?tags" for a
      using ok that by (auto simp: plain_segments_def list_all_iff)
    then show ?thesis by (auto dest: set_zip_leftD)
  qed
  have "substitute (template_of segs final) ?tags combo
      = filled segs final (encoding_of ([] @ zip ?tags combo))"
    unfolding substitute_def template_of_filled by (rule fold_replace_filled [OF ok al])
  also have "\<dots> = filled segs final (\<lambda>t. quote_py (value_of ?tags combo t) [])"
  proof (rule filled_cong, clarify)
    fix lit t
    assume "(lit, t) \<in> set segs"
    then have "t \<in> set ?tags" by force
    moreover have "map fst (zip ?tags combo) = ?tags"
      by (rule map_fst_zip) (simp add: len)
    ultimately have "t \<in> set (map fst (zip ?tags combo))" by simp
    then have "t \<in> fst ` set (zip ?tags combo)" by (simp only: set_map)
    then have "map_of (zip ?tags combo) t \<noteq> None"
      by (simp add: map_of_eq_None_iff)
    then show "encoding_of ([] @ zip ?tags combo) t = quote_py (value_of ?tags combo t) []"
      by (auto simp: encoding_of_def value_of_def)
  qed
  finally show ?thesis .
qed

lemma length_combo:
  "combo \<in> set (itertools_product ls) \<Longrightarrow> length combo = length ls"
  by (induction ls arbitrary: combo) auto

lemma itertools_product_empty:
  "[] \<in> set ls \<Longrightarrow> itertools_product ls = []"
proof -
  assume "[] \<in> set ls"
  then have "0 \<in> set (map length ls)" by force
  then have "prod_list (map length ls) = 0" by (simp add: prod_list_zero_iff)
  then show ?thesis using length_itertools_product [of ls] by simp
qed

lemma generate_template_of:
  assumes ok: "plain_segments segs final" and ne: "segs \<noteq> []"
    and g: "generate_urls_from_template ucd (template_of segs final) tv = Inr urls"
  shows "urls = map (\<lambda>combo. filled segs final (\<lambda>t. quote_py (value_of (map snd segs) combo t) []))
                  (itertools_product (map (working_list ucd tv) (map snd segs)))"
proof -
  let ?tags = "map snd segs"
  let ?ls = "map (working_list ucd tv) ?tags"
  have tags: "extract_tags (template_of segs final) = ?tags"
    by (rule extract_tags_template_of [OF ok])
  have tne: "extract_tags (template_of segs final) \<noteq> []"
    unfolding tags using ne by simp
  show ?thesis
  proof (cases "\<exists>t\<in>set ?tags. get_values tv t = []")
    case True
    then have "prepare_lists ucd tv ?tags [] = None" by (simp add: prepare_lists_None)
    with g tne have "urls = []"
      by (simp add: generate_urls_from_template_def generate_urls_from_template_impl_def tags)
    moreover from True obtain t where "t \<in> set ?tags" "working_list ucd tv t = []"
      by (auto simp: working_list_empty_iff)
    then have "[] \<in> set ?ls" by force
    then have "itertools_product ?ls = []" by (rule itertools_product_empty)
    ultimately show ?thesis by simp
  next
    case False
    then have vals: "\<forall>t\<in>set (extract_tags (template_of segs final)). get_values tv t \<noteq> []"
      unfolding tags by blast
    from g have "urls = map (substitute (template_of segs final) ?tags) (itertools_product ?ls)"
      unfolding generate_impl_cases [OF tne vals] tags by (auto split: sum.splits)
    also have "\<dots> = map (\<lambda>combo. filled segs final (\<lambda>t. quote_py (value_of ?tags combo t) []))
                       (itertools_product ?ls)"
    proof (rule map_cong [OF refl])
      fix combo
      assume "combo \<in> set (itertools_product ?ls)"
      then have "length combo = length segs" using length_combo by fastforce
      then show "substitute (template_of segs final) ?tags combo
          = filled segs final (\<lambda>t. quote_py (value_of ?tags combo t) [])"
        by (rule substitute_template_of [OF ok])
    qed
    finally show ?thesis .
  qed
qed

lemma contains_append: "contains x (a @ x @ b)"
proof (induction a)
  case Nil
  show ?case
  proof (cases "x @ b")
    case Nil
    then show ?thesis by simp
  next
    case (Cons c cs)
    have "take (length x) (x @ b) = x" by simp
    then have "take (length x) (c # cs) = x" by (simp only: Cons)
    then have "contains x (c # cs)" by simp
    then show ?thesis by (simp only: Cons append_Nil)
  qed
next
  case (Cons c a)
  then show ?case by simp
qed

lemma filled_contains:
  assumes "(lit, t) \<in> set segs"
  shows "contains (enc t) (filled segs final enc)"
proof -
  from assms obtain xs ys where "segs = xs @ (lit, t) # ys" by (auto dest: split_list)
  then have "filled segs final enc
      = (concat (map (\<lambda>(lit, t). lit @ enc t) xs) @ lit) @ enc t
          @ (concat (map (\<lambda>(lit, t). lit @ enc t) ys) @ final)"
    by (simp add: filled_def)
  then show ?thesis by (simp only: contains_append)
qed

text \<open>
  Claim C6. Every substituted value goes through \<open>quote\<close> with the empty \<open>safe\<close> set: only
  letters, digits and \<open>_.-~\<close> stay as they are, every other byte becomes \<open>%XX\<close>. A \<open>/\<close> in a
  value becomes \<open>%2F\<close> and the encoded value never contains a literal \<open>/\<close>; hence every
  generated URL has exactly the slashes of its template, none of them from a value. For a
  template made of literal text without \<open>[\<close> and of markers, the tags are the markers in
  order, each URL is the template with every marker replaced by the encoded value of its
  tag, so the encoded value occurs in the URL, and the generation returns exactly these
  URLs, one for each combination of the value lists, in the order of the product.
\<close>

theorem substituted_values_are_percent_encoded:
  "substitute template tags combo =
     fold (\<lambda>(t, v) u. replace_py (''['' @ t @ '']'') (quote_py v []) u) (zip tags combo) template
   \<and> quote_py v [] = concat (map (\<lambda>c. if c \<in> set always_safe then [c] else percent_byte c) v)
   \<and> quote_py (a @ ''/'' @ b) [] = quote_py a [] @ ''%2F'' @ quote_py b []
   \<and> CHR ''/'' \<notin> set (quote_py v [])
   \<and> (generate_urls_from_template ucd template tv = Inr urls \<longrightarrow>
        (\<forall>u\<in>set urls. count_list u CHR ''/'' = count_list template CHR ''/''))
   \<and> (plain_segments segs final \<longrightarrow>
        extract_tags (template_of segs final) = map snd segs
        \<and> (length combo = length segs \<longrightarrow>
             substitute (template_of segs final) (map snd segs) combo
               = filled segs final (\<lambda>t. quote_py (value_of (map snd segs) combo t) [])
             \<and> (\<forall>(lit, t)\<in>set segs.
                  contains (quote_py (value_of (map snd segs) combo t) [])
                    (substitute (template_of segs final) (map snd segs) combo)))
        \<and> (segs \<noteq> [] \<and> generate_urls_from_template ucd (template_of segs final) tv = Inr found \<longrightarrow>
             found = map (\<lambda>combo. filled segs final (\<lambda>t. quote_py (value_of (map snd segs) combo t) []))
                       (itertools_product (map (working_list ucd tv) (map snd segs)))))"
proof -
  have 1: "substitute template tags combo =
     fold (\<lambda>(t, v) u. replace_py (''['' @ t @ '']'') (quote_py v []) u) (zip tags combo) template"
    by (simp add: substitute_def)
  have 2: "quote_py v [] = concat (map (\<lambda>c. if c \<in> set always_safe then [c] else percent_byte c) v)"
    by (simp add: quote_py_def)
  have 3: "quote_py (a @ ''/'' @ b) [] = quote_py a [] @ ''%2F'' @ quote_py b []"
    by (simp only: quote_py_append quote_py_slash)
  have 5: "count_list u CHR ''/'' = count_list template CHR ''/''"
    if "generate_urls_from_template ucd template tv = Inr urls" "u \<in> set urls" for u
    using generate_urls_are_substitutions [OF that] count_substitute by auto
  have 6: "extract_tags (template_of segs final) = map snd segs" if "plain_segments segs final"
    using that by (rule extract_tags_template_of)
  have 7: "substitute (template_of segs final) (map snd segs) combo
        = filled segs final (\<lambda>t. quote_py (value_of (map snd segs) combo t) [])"
    if "plain_segments segs final" "length combo = length segs"
    using that by (rule substitute_template_of)
  have 8: "\<forall>(lit, t)\<in>set segs.
        contains (quote_py (value_of (map snd segs) combo t) [])
          (substitute (template_of segs final) (map snd segs) combo)"
    if "plain_segments segs final" "length combo = length segs"
    unfolding 7 [OF that]
    using filled_contains [of _ _ segs "\<lambda>t. quote_py (value_of (map snd segs) combo t) []" final]
    by auto
  have 9: "found = map (\<lambda>combo. filled segs final (\<lambda>t. quote_py (value_of (map snd segs) combo t) []))
                       (itertools_product (map (working_list ucd tv) (map snd segs)))"
    if "plain_segments segs final" "segs \<noteq> []"
       "generate_urls_from_template ucd (template_of segs final) tv = Inr found"
    using that by (rule generate_template_of)
  from 1 2 3 slash_not_in_quote [of v] 5 6 7 8 9 show ?thesis by blast
qed

lemma splash_segments:
  "TEMPLATE_BANNER_SPLASH =
     template_of [(''https://dl.dir.freefiremobile.com/common/OB'', ''V''), (''/ID/'', ''T''), (''_'', ''E'')]
       ''/splash.jpg''"
  by (simp add: TEMPLATE_BANNER_SPLASH_def template_of_def)

lemma splash_plain:
  "plain_segments [(''https://dl.dir.freefiremobile.com/common/OB'', ''V''), (''/ID/'', ''T''), (''_'', ''E'')]
     ''/splash.jpg''"
  by (simp add: plain_segments_def is_alnum_def ascii_upper_def ascii_lower_def ascii_digits_def)

lemma splash_slash_example:
  "generate_urls_from_template ucd TEMPLATE_BANNER_SPLASH
     [''V'' \<mapsto> [''37''], ''T'' \<mapsto> [''a/b''], ''E'' \<mapsto> [''x y'', ''/'']]
   = Inr [''https://dl.dir.freefiremobile.com/common/OB37/ID/a%2Fb_x%20y/splash.jpg'',
          ''https://dl.dir.freefiremobile.com/common/OB37/ID/a%2Fb_%2F/splash.jpg'']"
  by code_simp

theorem substituted_values_are_percent_encoded_witness:
  "map (\<lambda>combo. filled
           [(''https://dl.dir.freefiremobile.com/common/OB'', ''V''), (''/ID/'', ''T''), (''_'', ''E'')]
           ''/splash.jpg'' (\<lambda>t. quote_py (value_of [''V'', ''T'', ''E''] combo t) []))
     (itertools_product
        (map (working_list plain_database [''V'' \<mapsto> [''37''], ''T'' \<mapsto> [''a/b''], ''E'' \<mapsto> [''x y'', ''/'']])
           [''V'', ''T'', ''E'']))
   = [''https://dl.dir.freefiremobile.com/common/OB37/ID/a%2Fb_x%20y/splash.jpg'',
      ''https://dl.dir.freefiremobile.com/common/OB37/ID/a%2Fb_%2F/splash.jpg'']
   \<and> generate_urls_from_template plain_database TEMPLATE_BANNER_SPLASH
        [''V'' \<mapsto> [''37''], ''T'' \<mapsto> [''a/b''], ''E'' \<mapsto> [''x y'', ''/'']]
     = Inr [''https://dl.dir.freefiremobile.com/common/OB37/ID/a%2Fb_x%20y/splash.jpg'',
            ''https://dl.dir.freefiremobile.com/common/OB37/ID/a%2Fb_%2F/splash.jpg'']
   \<and> extract_tags TEMPLATE_BANNER_SPLASH = [''V'', ''T'', ''E'']
   \<and> quote_py (''a'' @ ''/'' @ ''b'') [] = ''a%2Fb''"
proof -
  let ?segs = "[(''https://dl.dir.freefiremobile.com/common/OB'', ''V''), (''/ID/'', ''T''), (''_'', ''E'')]"
  let ?tv = "[''V'' \<mapsto> [''37''], ''T'' \<mapsto> [''a/b''], ''E'' \<mapsto> [''x y'', ''/'']]"
  let ?urls = "[''https://dl.dir.freefiremobile.com/common/OB37/ID/a%2Fb_x%20y/splash.jpg'',
                ''https://dl.dir.freefiremobile.com/common/OB37/ID/a%2Fb_%2F/splash.jpg'']"
  note t = substituted_values_are_percent_encoded
             [where ucd = plain_database and segs = ?segs and final = "''/splash.jpg''"
                and tv = ?tv and found = ?urls and a = "''a''" and b = "''b''"]
  have g: "generate_urls_from_template plain_database (template_of ?segs ''/splash.jpg'') ?tv = Inr ?urls"
    unfolding splash_segments [symmetric] by (rule splash_slash_example)
  have ne: "?segs \<noteq> []" by simp
  have snd: "map snd ?segs = [''V'', ''T'', ''E'']" by simp
  from t splash_plain have tags: "extract_tags (template_of ?segs ''/splash.jpg'') = map snd ?segs"
    by blast
  from t splash_plain ne g
  have "?urls = map (\<lambda>combo. filled ?segs ''/splash.jpg''
                      (\<lambda>t. quote_py (value_of (map snd ?segs) combo t) []))
                  (itertools_product (map (working_list plain_database ?tv) (map snd ?segs)))"
    by blast
  then have m: "map (\<lambda>combo. filled ?segs ''/splash.jpg''
                      (\<lambda>t. quote_py (value_of [''V'', ''T'', ''E''] combo t) []))
                  (itertools_product (map (working_list plain_database ?tv) [''V'', ''T'', ''E''])) = ?urls"
    unfolding snd by (rule sym)
  have q: "quote_py ''a'' [] = ''a''" "quote_py ''b'' [] = ''b''"
    by (simp_all add: quote_py_def always_safe_def ascii_upper_def ascii_lower_def ascii_digits_def)
  from t have "quote_py (''a'' @ ''/'' @ ''b'') [] = quote_py ''a'' [] @ ''%2F'' @ quote_py ''b'' []"
    by blast
  then have s: "quote_py (''a'' @ ''/'' @ ''b'') [] = ''a%2Fb''"
    unfolding q by simp
  have e: "extract_tags TEMPLATE_BANNER_SPLASH = [''V'', ''T'', ''E'']"
    using tags unfolding splash_segments [symmetric] snd .
  from m g [unfolded splash_segments [symmetric]] e s show ?thesis by blast
qed

section \<open>Gacha names: the expansion of one value\<close>

lemma suffix_forms_list:
  "suffix_forms b = [b, b @ ''-2'', b @ ''-3'', b @ ''-4'', b @ ''-5'', b @ ''-6'']"
  by (simp add: suffix_forms_def upt_rec str_nat.simps digit_char_def ascii_digits_def)

lemma distinct_suffix_forms: "distinct (suffix_forms b)"
  by (simp add: suffix_forms_list)

lemma length_concat_suffix_forms:
  "length (concat (map suffix_forms bs)) = 6 * length bs"
  by (induction bs) (simp_all add: suffix_forms_list)

lemma set_suffix_forms:
  "set (suffix_forms b) = {b @ s | s. s \<in> set ([] # numbered_suffixes)}"
  by (auto simp: suffix_forms_list numbered_suffixes_def)

lemma suffix_forms_disjoint:
  assumes ne: "a \<noteq> b"
    and ab: "\<forall>s\<in>set numbered_suffixes. b \<noteq> a @ s"
    and ba: "\<forall>s\<in>set numbered_suffixes. a \<noteq> b @ s"
  shows "set (suffix_forms a) \<inter> set (suffix_forms b) = {}"
proof -
  have c: "a @ s \<noteq> b @ s'" if "length s = length s'" for s s'
    using ne that by simp
  from ab ba show ?thesis
    unfolding suffix_forms_list numbered_suffixes_def
    using ne by (auto simp: c)
qed

lemma distinct_concat_suffix_forms:
  "distinct bs \<Longrightarrow> \<forall>a\<in>set bs. \<forall>b\<in>set bs. \<forall>s\<in>set numbered_suffixes. b \<noteq> a @ s \<Longrightarrow>
   distinct (concat (map suffix_forms bs))"
proof (induction bs)
  case Nil
  show ?case by simp
next
  case (Cons b bs)
  have "set (suffix_forms b) \<inter> set (suffix_forms b') = {}" if "b' \<in> set bs" for b'
    using Cons.prems that by (intro suffix_forms_disjoint) auto
  then have "set (suffix_forms b) \<inter> (\<Union>b'\<in>set bs. set (suffix_forms b')) = {}" by blast
  moreover have "distinct (concat (map suffix_forms bs))"
    using Cons.prems by (intro Cons.IH) auto
  ultimately show ?case by (simp add: distinct_suffix_forms)
qed

lemma uniq_loop_is_distinct:
  "distinct uniq \<Longrightarrow> set uniq \<subseteq> seen \<Longrightarrow> distinct (uniq_loop xs seen uniq)"
proof (induction xs arbitrary: seen uniq)
  case Nil
  then show ?case by simp
next
  case (Cons x xs)
  show ?case
  proof (cases "x \<in> seen")
    case True
    with Cons show ?thesis by simp
  next
    case False
    with Cons.prems have "distinct (uniq @ [x])" "set (uniq @ [x]) \<subseteq> insert x seen" by auto
    from Cons.IH [OF this] False show ?thesis by simp
  qed
qed

lemma uniq_loop_length:
  "length (uniq_loop xs seen uniq) \<le> length uniq + length xs"
proof (induction xs arbitrary: seen uniq)
  case Nil
  show ?case by simp
next
  case (Cons x xs)
  from Cons [of "insert x seen" "uniq @ [x]"] Cons [of seen uniq] show ?case by simp
qed

lemma length_title_from: "length (title_from p s) = length s"
  by (induction s arbitrary: p) simp_all

lemma ascii_casings_keep_length:
  "list_all is_ascii v \<Longrightarrow>
   length (title_py ucd v) = length v \<and> length (lower_py ucd v) = length v"
  by (simp add: title_py_def lower_py_def length_title_from)

lemma expand_gacha_name_base_plain:
  "\<not> (contains ''token'' (lower_py ucd v) \<and> contains ''wheel'' (lower_py ucd v)) \<Longrightarrow>
   expand_gacha_name_base ucd v = casing_variants ucd v"
  by (auto simp: expand_gacha_name_base_def Let_def append_new_def casing_variants_def)

lemma casing_variants_distinct: "distinct (casing_variants ucd v)"
  by (auto simp: casing_variants_def)

lemma casing_variants_set:
  "set (casing_variants ucd v) = {v, title_py ucd v, lower_py ucd v}"
  by (auto simp: casing_variants_def)

lemma casing_variants_count:
  "1 \<le> length (casing_variants ucd v) \<and> length (casing_variants ucd v) \<le> 3
   \<and> (length (casing_variants ucd v) = 3
        \<longleftrightarrow> title_py ucd v \<noteq> v \<and> lower_py ucd v \<noteq> v \<and> lower_py ucd v \<noteq> title_py ucd v)"
  by (auto simp: casing_variants_def)

lemma same_length_no_suffixed_variant:
  assumes "\<forall>b\<in>set bs. length b = n"
  shows "\<forall>a\<in>set bs. \<forall>b\<in>set bs. \<forall>s\<in>set numbered_suffixes. b \<noteq> a @ s"
proof (intro ballI)
  fix a b s
  assume a: "a \<in> set bs" and b: "b \<in> set bs" and s: "s \<in> set numbered_suffixes"
  from s have "length s = 2" by (auto simp: numbered_suffixes_def)
  with assms a b have "length b \<noteq> length (a @ s)" by simp
  then show "b \<noteq> a @ s" by auto
qed

lemma ascii_no_suffixed_variant:
  assumes "list_all is_ascii v"
  shows "\<forall>a\<in>set (casing_variants ucd v). \<forall>b\<in>set (casing_variants ucd v).
           \<forall>s\<in>set numbered_suffixes. b \<noteq> a @ s"
proof -
  have "\<forall>b\<in>set (casing_variants ucd v). length b = length v"
    using ascii_casings_keep_length [OF assms, of ucd] by (auto simp: casing_variants_set)
  then show ?thesis by (rule same_length_no_suffixed_variant)
qed

lemma expand_one_value:
  assumes "\<not> (contains ''token'' (lower_py ucd v) \<and> contains ''wheel'' (lower_py ucd v))"
  shows "expand_gacha_values ucd [v] =
           uniq_loop (concat (map suffix_forms (casing_variants ucd v))) {} []"
  by (simp add: expand_gacha_values_def expand_gacha_name_base_plain [OF assms])

lemma skull_expansion:
  "expand_gacha_values ucd [''Skull''] =
     [''Skull'', ''Skull-2'', ''Skull-3'', ''Skull-4'', ''Skull-5'', ''Skull-6'',
      ''skull'', ''skull-2'', ''skull-3'', ''skull-4'', ''skull-5'', ''skull-6'']"
  by code_simp

text \<open>
  Claim C2 (amended). For every single raw value whose lower-cased text does not contain
  both \<open>token\<close> and \<open>wheel\<close>, the expansion is, without repetition and in first-seen order,
  the list of the forms \<open>b\<close>, \<open>b-2\<close>, ..., \<open>b-6\<close> of the distinct casing variants \<open>b\<close> among
  original, title case and lower case, in that order. It has at most 18 candidates, and 18
  only when the three casings are pairwise different. When no casing variant is another
  one followed by one of \<open>-2\<close> to \<open>-6\<close>, which is so for every ASCII value, there are
  exactly six candidates per distinct variant: 6, 12 or 18, and 18 exactly when the three
  casings are pairwise different. For \<open>Skull\<close> the title case equals the original and the
  result is the twelve strings \<open>Skull\<close>, \<open>Skull-2\<close> to \<open>Skull-6\<close>, \<open>skull\<close>, \<open>skull-2\<close> to
  \<open>skull-6\<close>.
\<close>

theorem gacha_expansion_of_one_value:
  assumes "\<not> (contains ''token'' (lower_py ucd v) \<and> contains ''wheel'' (lower_py ucd v))"
  shows "expand_gacha_values ucd [v] =
           uniq_loop (concat (map suffix_forms (casing_variants ucd v))) {} []
     \<and> set (expand_gacha_values ucd [v]) =
         {b @ s | b s. b \<in> {v, title_py ucd v, lower_py ucd v} \<and> s \<in> set ([] # numbered_suffixes)}
     \<and> distinct (expand_gacha_values ucd [v])
     \<and> length (expand_gacha_values ucd [v]) \<le> 18
     \<and> (length (expand_gacha_values ucd [v]) = 18 \<longrightarrow>
          title_py ucd v \<noteq> v \<and> lower_py ucd v \<noteq> v \<and> lower_py ucd v \<noteq> title_py ucd v)
     \<and> ((\<forall>a\<in>set (casing_variants ucd v). \<forall>b\<in>set (casing_variants ucd v).
            \<forall>s\<in>set numbered_suffixes. b \<noteq> a @ s) \<longrightarrow>
          expand_gacha_values ucd [v] = concat (map suffix_forms (casing_variants ucd v))
          \<and> length (expand_gacha_values ucd [v]) = 6 * length (casing_variants ucd v)
          \<and> length (expand_gacha_values ucd [v]) \<in> {6, 12, 18}
          \<and> (length (expand_gacha_values ucd [v]) = 18
               \<longleftrightarrow> title_py ucd v \<noteq> v \<and> lower_py ucd v \<noteq> v \<and> lower_py ucd v \<noteq> title_py ucd v))
     \<and> (list_all is_ascii v \<longrightarrow>
          (\<forall>a\<in>set (casing_variants ucd v). \<forall>b\<in>set (casing_variants ucd v).
             \<forall>s\<in>set numbered_suffixes. b \<noteq> a @ s))
     \<and> expand_gacha_values ucd [''Skull''] =
         [''Skull'', ''Skull-2'', ''Skull-3'', ''Skull-4'', ''Skull-5'', ''Skull-6'',
          ''skull'', ''skull-2'', ''skull-3'', ''skull-4'', ''skull-5'', ''skull-6'']"
proof -
  let ?V = "casing_variants ucd v"
  let ?all = "concat (map suffix_forms ?V)"
  have e: "expand_gacha_values ucd [v] = uniq_loop ?all {} []"
    by (rule expand_one_value [OF assms])
  have s: "set (expand_gacha_values ucd [v]) =
      {b @ s | b s. b \<in> {v, title_py ucd v, lower_py ucd v} \<and> s \<in> set ([] # numbered_suffixes)}"
  proof -
    have "set (expand_gacha_values ucd [v]) = (\<Union>b\<in>set ?V. set (suffix_forms b))"
      unfolding e by (simp add: uniq_loop_set)
    also have "\<dots> = {b @ s | b s. b \<in> set ?V \<and> s \<in> set ([] # numbered_suffixes)}"
      unfolding set_suffix_forms by blast
    finally show ?thesis unfolding casing_variants_set .
  qed
  have d: "distinct (expand_gacha_values ucd [v])"
    unfolding e by (rule uniq_loop_is_distinct) simp_all
  have le: "length (expand_gacha_values ucd [v]) \<le> 6 * length ?V"
    unfolding e using uniq_loop_length [of ?all "{}" "[]"]
    by (simp add: length_concat_suffix_forms)
  from casing_variants_count [of ucd v]
  have n: "length ?V = 1 \<or> length ?V = 2 \<or> length ?V = 3"
    by arith
  have le18: "length (expand_gacha_values ucd [v]) \<le> 18"
    using le n by auto
  have only: "title_py ucd v \<noteq> v \<and> lower_py ucd v \<noteq> v \<and> lower_py ucd v \<noteq> title_py ucd v"
    if "length (expand_gacha_values ucd [v]) = 18"
  proof -
    from that le n have "length ?V = 3" by auto
    with casing_variants_count [of ucd v] show ?thesis by blast
  qed
  have exact: "expand_gacha_values ucd [v] = ?all
      \<and> length (expand_gacha_values ucd [v]) = 6 * length ?V
      \<and> length (expand_gacha_values ucd [v]) \<in> {6, 12, 18}
      \<and> (length (expand_gacha_values ucd [v]) = 18
           \<longleftrightarrow> title_py ucd v \<noteq> v \<and> lower_py ucd v \<noteq> v \<and> lower_py ucd v \<noteq> title_py ucd v)"
    if nc: "\<forall>a\<in>set ?V. \<forall>b\<in>set ?V. \<forall>s\<in>set numbered_suffixes. b \<noteq> a @ s"
  proof -
    have "distinct ?all"
      using casing_variants_distinct nc by (rule distinct_concat_suffix_forms)
    then have "uniq_loop ?all {} [] = [] @ ?all"
      by (intro uniq_loop_distinct) simp_all
    with e have eq: "expand_gacha_values ucd [v] = ?all" by simp
    have l: "length (expand_gacha_values ucd [v]) = 6 * length ?V"
      unfolding eq by (rule length_concat_suffix_forms)
    have m: "length (expand_gacha_values ucd [v]) \<in> {6, 12, 18}"
      unfolding l using n by auto
    have t: "length (expand_gacha_values ucd [v]) = 18
        \<longleftrightarrow> title_py ucd v \<noteq> v \<and> lower_py ucd v \<noteq> v \<and> lower_py ucd v \<noteq> title_py ucd v"
      unfolding l using casing_variants_count [of ucd v] by auto
    from eq l m t show ?thesis by blast
  qed
  have ascii: "\<forall>a\<in>set ?V. \<forall>b\<in>set ?V. \<forall>s\<in>set numbered_suffixes. b \<noteq> a @ s"
    if "list_all is_ascii v"
    using that by (rule ascii_no_suffixed_variant)
  from e s d le18 only exact ascii skull_expansion [of ucd] show ?thesis by blast
qed

lemma sKull_variants:
  "concat (map suffix_forms (casing_variants ucd ''sKull'')) =
     [''sKull'', ''sKull-2'', ''sKull-3'', ''sKull-4'', ''sKull-5'', ''sKull-6'',
      ''Skull'', ''Skull-2'', ''Skull-3'', ''Skull-4'', ''Skull-5'', ''Skull-6'',
      ''skull'', ''skull-2'', ''skull-3'', ''skull-4'', ''skull-5'', ''skull-6'']"
  by code_simp

lemma sKull_plain:
  "\<not> (contains ''token'' (lower_py ucd ''sKull'') \<and> contains ''wheel'' (lower_py ucd ''sKull''))"
  by code_simp

theorem gacha_expansion_of_one_value_witness:
  "expand_gacha_values plain_database [''sKull''] =
     [''sKull'', ''sKull-2'', ''sKull-3'', ''sKull-4'', ''sKull-5'', ''sKull-6'',
      ''Skull'', ''Skull-2'', ''Skull-3'', ''Skull-4'', ''Skull-5'', ''Skull-6'',
      ''skull'', ''skull-2'', ''skull-3'', ''skull-4'', ''skull-5'', ''skull-6'']
   \<and> length (expand_gacha_values plain_database [''sKull'']) = 18"
proof -
  have a: "list_all is_ascii ''sKull''" by (simp add: is_ascii_def)
  note t = gacha_expansion_of_one_value [OF sKull_plain, of plain_database]
  from t a have nc: "\<forall>a\<in>set (casing_variants plain_database ''sKull'').
      \<forall>b\<in>set (casing_variants plain_database ''sKull'').
      \<forall>s\<in>set numbered_suffixes. b \<noteq> a @ s"
    by blast
  from t nc have e: "expand_gacha_values plain_database [''sKull'']
      = concat (map suffix_forms (casing_variants plain_database ''sKull''))"
    by blast
  show ?thesis unfolding e sKull_variants by simp
qed

text \<open>
  The claim as stated, with 18 candidates for every such value, fails for the claim's own
  example: \<open>Skull\<close> lacks the two substrings and has 12 candidates.
\<close>

theorem gacha_eighteen_counterexample:
  "\<not> (contains ''token'' (lower_py plain_database ''Skull'')
        \<and> contains ''wheel'' (lower_py plain_database ''Skull''))
   \<and> length (expand_gacha_values plain_database [''Skull'']) = 12
   \<and> length (expand_gacha_values plain_database [''Skull'']) \<noteq> 18"
  by code_simp

section \<open>The banner composite\<close>

text \<open>The overview template with its three markers filled in.\<close>

lemma substitute_overview:
  "substitute TEMPLATE_BANNER_OVERVIEW [''V'', ''T'', ''E''] [v, t, e] =
     ''https://dl.dir.freefiremobile.com/common/OB'' @ quote_py v [] @ ''/ID/''
       @ quote_py t [] @ ''_'' @ quote_py e [] @ ''/overview.jpg''"
proof -
  let ?P = "''https://dl.dir.freefiremobile.com/common/OB''"
  let ?qv = "quote_py v []" and ?qt = "quote_py t []" and ?qe = "quote_py e []"
  have s1: "replace_py ''[V]'' ?qv TEMPLATE_BANNER_OVERVIEW = ?P @ ?qv @ ''/ID/[T]_[E]/overview.jpg''"
  proof -
    have nb: "hd ''[V]'' \<notin> set ?P" by simp
    have "TEMPLATE_BANNER_OVERVIEW = ?P @ ''[V]'' @ ''/ID/[T]_[E]/overview.jpg''"
      by (simp add: TEMPLATE_BANNER_OVERVIEW_def)
    then have "replace_py ''[V]'' ?qv TEMPLATE_BANNER_OVERVIEW
        = ?P @ replace_py ''[V]'' ?qv (''[V]'' @ ''/ID/[T]_[E]/overview.jpg'')"
      using replace_py_skip [OF _ nb, of ?qv "''[V]'' @ ''/ID/[T]_[E]/overview.jpg''"] by simp
    also have "replace_py ''[V]'' ?qv (''[V]'' @ ''/ID/[T]_[E]/overview.jpg'')
        = ?qv @ replace_py ''[V]'' ?qv ''/ID/[T]_[E]/overview.jpg''"
      by (rule replace_py_match) simp
    also have "replace_py ''[V]'' ?qv ''/ID/[T]_[E]/overview.jpg'' = ''/ID/[T]_[E]/overview.jpg''"
      by simp
    finally show ?thesis by simp
  qed
  have s2: "replace_py ''[T]'' ?qt (?P @ ?qv @ ''/ID/[T]_[E]/overview.jpg'')
      = ?P @ ?qv @ ''/ID/'' @ ?qt @ ''_[E]/overview.jpg''"
  proof -
    have nb: "hd ''[T]'' \<notin> set (?P @ ?qv @ ''/ID/'')"
      using open_bracket_not_in_quote [of v] by simp
    have "?P @ ?qv @ ''/ID/[T]_[E]/overview.jpg'' = (?P @ ?qv @ ''/ID/'') @ ''[T]'' @ ''_[E]/overview.jpg''"
      by simp
    then have "replace_py ''[T]'' ?qt (?P @ ?qv @ ''/ID/[T]_[E]/overview.jpg'')
        = (?P @ ?qv @ ''/ID/'') @ replace_py ''[T]'' ?qt (''[T]'' @ ''_[E]/overview.jpg'')"
      using replace_py_skip [OF _ nb, of ?qt "''[T]'' @ ''_[E]/overview.jpg''"] by simp
    also have "replace_py ''[T]'' ?qt (''[T]'' @ ''_[E]/overview.jpg'')
        = ?qt @ replace_py ''[T]'' ?qt ''_[E]/overview.jpg''"
      by (rule replace_py_match) simp
    also have "replace_py ''[T]'' ?qt ''_[E]/overview.jpg'' = ''_[E]/overview.jpg''"
      by simp
    finally show ?thesis by simp
  qed
  have s3: "replace_py ''[E]'' ?qe (?P @ ?qv @ ''/ID/'' @ ?qt @ ''_[E]/overview.jpg'')
      = ?P @ ?qv @ ''/ID/'' @ ?qt @ ''_'' @ ?qe @ ''/overview.jpg''"
  proof -
    have nb: "hd ''[E]'' \<notin> set (?P @ ?qv @ ''/ID/'' @ ?qt @ ''_'')"
      using open_bracket_not_in_quote [of v] open_bracket_not_in_quote [of t] by simp
    have "?P @ ?qv @ ''/ID/'' @ ?qt @ ''_[E]/overview.jpg''
        = (?P @ ?qv @ ''/ID/'' @ ?qt @ ''_'') @ ''[E]'' @ ''/overview.jpg''"
      by simp
    then have "replace_py ''[E]'' ?qe (?P @ ?qv @ ''/ID/'' @ ?qt @ ''_[E]/overview.jpg'')
        = (?P @ ?qv @ ''/ID/'' @ ?qt @ ''_'') @ replace_py ''[E]'' ?qe (''[E]'' @ ''/overview.jpg'')"
      using replace_py_skip [OF _ nb, of ?qe "''[E]'' @ ''/overview.jpg''"] by simp
    also have "replace_py ''[E]'' ?qe (''[E]'' @ ''/overview.jpg'')
        = ?qe @ replace_py ''[E]'' ?qe ''/overview.jpg''"
      by (rule replace_py_match) simp
    also have "replace_py ''[E]'' ?qe ''/overview.jpg'' = ''/overview.jpg''"
      by simp
    finally show ?thesis by simp
  qed
  have "substitute TEMPLATE_BANNER_OVERVIEW [''V'', ''T'', ''E''] [v, t, e]
      = replace_py ''[E]'' ?qe (replace_py ''[T]'' ?qt (replace_py ''[V]'' ?qv TEMPLATE_BANNER_OVERVIEW))"
    by (simp add: substitute_def)
  also have "\<dots> = ?P @ ?qv @ ''/ID/'' @ ?qt @ ''_'' @ ?qe @ ''/overview.jpg''"
    by (simp only: s1 s2 s3)
  finally show ?thesis .
qed


lemma quote_py_Cons:
  "quote_py (d # t) [] = (if d \<in> set always_safe then [d] else percent_byte d) @ quote_py t []"
  by (simp add: quote_py_def)

lemma quote_safe_prefix:
  "\<forall>c\<in>set p. c \<in> set always_safe \<Longrightarrow> take (length p) (quote_py t []) = p \<Longrightarrow>
   take (length p) t = p"
proof (induction p arbitrary: t)
  case Nil
  show ?case by simp
next
  case (Cons c p)
  show ?case
  proof (cases t)
    case Nil
    with Cons.prems(2) show ?thesis by (simp add: quote_py_def)
  next
    case (Cons d t')
    have pct: "CHR ''%'' \<notin> set always_safe"
      by (simp add: always_safe_def ascii_upper_def ascii_lower_def ascii_digits_def)
    show ?thesis
    proof (cases "d \<in> set always_safe")
      case True
      with Cons.prems(2) Cons have "d = c" "take (length p) (quote_py t' []) = p"
        by (simp_all add: quote_py_Cons)
      with Cons.IH [of t'] Cons.prems(1) Cons show ?thesis by simp
    next
      case False
      with Cons.prems(2) Cons have "c = CHR ''%''"
        by (simp add: quote_py_Cons percent_byte_def)
      with Cons.prems(1) pct show ?thesis by simp
    qed
  qed
qed

lemma overview_prefix_of_quoted:
  "take 12 (quote_py t []) = ''overview.jpg'' \<Longrightarrow> take 12 t = ''overview.jpg''"
proof -
  assume a: "take 12 (quote_py t []) = ''overview.jpg''"
  have safe: "\<forall>c\<in>set ''overview.jpg''. c \<in> set always_safe"
    by (simp add: always_safe_def ascii_upper_def ascii_lower_def ascii_digits_def)
  have len: "length ''overview.jpg'' = 12" by simp
  from quote_safe_prefix [OF safe, of t] a show ?thesis
    unfolding len by simp
qed

lemma take_before_underscore:
  "CHR ''_'' \<notin> set p \<Longrightarrow> take (length p) (q @ ''_'' @ r) = p \<Longrightarrow> take (length p) q = p"
proof -
  assume us: "CHR ''_'' \<notin> set p" and eq: "take (length p) (q @ ''_'' @ r) = p"
  show ?thesis
  proof (cases "length p \<le> length q")
    case True
    with eq show ?thesis by simp
  next
    case False
    then have lt: "length q < length p" by simp
    then have "p ! length q = (take (length p) (q @ ''_'' @ r)) ! length q"
      using eq by simp
    also have "\<dots> = (q @ ''_'' @ r) ! length q"
      by (rule nth_take [OF lt])
    also have "\<dots> = CHR ''_''" by (simp add: nth_append)
    finally have "p ! length q = CHR ''_''" .
    with lt have "CHR ''_'' \<in> set p" by (metis nth_mem)
    with us show ?thesis by simp
  qed
qed

lemma take_Cons_eq:
  "take (length (c # p)) (c # xs) = c # p \<longleftrightarrow> take (length p) xs = p"
  by simp

lemma replace_py_nomatch:
  "old \<noteq> [] \<Longrightarrow> take (length old) (c # cs) \<noteq> old \<Longrightarrow>
   replace_py old new (c # cs) = c # replace_py old new cs"
  by simp

lemma replace_overview_in_base:
  assumes "take 12 (quote_py t []) \<noteq> ''overview.jpg''"
  shows "replace_py ''/overview.jpg'' new
           (''https://dl.dir.freefiremobile.com/common/OB'' @ quote_py v [] @ ''/ID/''
              @ quote_py t [] @ ''_'' @ quote_py e [] @ ''/overview.jpg'')
         = ''https://dl.dir.freefiremobile.com/common/OB'' @ quote_py v [] @ ''/ID/''
              @ quote_py t [] @ ''_'' @ quote_py e [] @ new"
proof -
  let ?old = "''/overview.jpg''"
  let ?qv = "quote_py v []" and ?qt = "quote_py t []" and ?qe = "quote_py e []"
  have sv: "hd ?old \<notin> set ?qv" using slash_not_in_quote [of v] by simp
  have st: "hd ?old \<notin> set ?qt" using slash_not_in_quote [of t] by simp
  have se: "hd ?old \<notin> set (''_'' @ ?qe)" using slash_not_in_quote [of e] by simp
  have last: "replace_py ?old new (?old @ []) = new @ replace_py ?old new []"
    by (rule replace_py_match) simp
  have d3: "replace_py ?old new ((''_'' @ ?qe) @ ?old) = (''_'' @ ?qe) @ new"
    using replace_py_skip [OF _ se, of new ?old] last by simp
  have d2: "replace_py ?old new (?qt @ ''_'' @ ?qe @ ?old) = ?qt @ ''_'' @ ?qe @ new"
    using replace_py_skip [OF _ st, of new "(''_'' @ ?qe) @ ?old"] d3 by simp
  have nomatch: "take (length ?old) (CHR ''/'' # ?qt @ ''_'' @ ?qe @ ?old) \<noteq> ?old"
  proof
    assume "take (length ?old) (CHR ''/'' # ?qt @ ''_'' @ ?qe @ ?old) = ?old"
    then have m: "take (length ''overview.jpg'') (?qt @ ''_'' @ ?qe @ ?old) = ''overview.jpg''"
      by (simp only: take_Cons_eq)
    have len: "length ''overview.jpg'' = 12" by simp
    have us: "CHR ''_'' \<notin> set ''overview.jpg''" by simp
    have "take (length ''overview.jpg'') ?qt = ''overview.jpg''"
      by (rule take_before_underscore [OF us m])
    with assms show False unfolding len by simp
  qed
  have d1b: "replace_py ?old new (CHR ''/'' # ?qt @ ''_'' @ ?qe @ ?old)
      = CHR ''/'' # ?qt @ ''_'' @ ?qe @ new"
    using replace_py_nomatch [OF _ nomatch, of new] d2 by simp
  have d1a: "replace_py ?old new (''/ID'' @ y) = ''/ID'' @ replace_py ?old new y" for y
    by simp
  have d1: "replace_py ?old new (''/ID/'' @ ?qt @ ''_'' @ ?qe @ ?old)
      = ''/ID/'' @ ?qt @ ''_'' @ ?qe @ new"
    using d1a [of "CHR ''/'' # ?qt @ ''_'' @ ?qe @ ?old"] d1b by simp
  have d0: "replace_py ?old new (?qv @ ''/ID/'' @ ?qt @ ''_'' @ ?qe @ ?old)
      = ?qv @ ''/ID/'' @ ?qt @ ''_'' @ ?qe @ new"
    using replace_py_skip [OF _ sv, of new "''/ID/'' @ ?qt @ ''_'' @ ?qe @ ?old"] d1 by simp
  show ?thesis using d0 by simp
qed


lemma count_total_Inr:
  "count_total n ls = Inr r \<Longrightarrow> n \<le> MAX_COMBINATIONS \<Longrightarrow> r \<le> MAX_COMBINATIONS"
proof (induction ls arbitrary: n)
  case Nil
  then show ?case by simp
next
  case (Cons l ls)
  show ?case
  proof (cases "MAX_COMBINATIONS < n * length l")
    case True
    with Cons.prems(1) show ?thesis by (simp add: Let_def)
  next
    case False
    with Cons.prems(1) have "count_total (n * length l) ls = Inr r" by (simp add: Let_def)
    from Cons.IH [OF this] False show ?thesis by simp
  qed
qed

lemma generate_within_ceiling:
  "generate_urls_from_template ucd template tv = Inr urls \<Longrightarrow> length urls \<le> MAX_COMBINATIONS"
proof -
  assume g: "generate_urls_from_template ucd template tv = Inr urls"
  have one: "(1::nat) \<le> MAX_COMBINATIONS" by (simp add: MAX_COMBINATIONS_def)
  show ?thesis
  proof (cases "extract_tags template = []")
    case True
    with g show ?thesis
      by (simp add: generate_urls_from_template_def generate_urls_from_template_impl_def)
  next
    case tags: False
    show ?thesis
    proof (cases "prepare_lists ucd tv (extract_tags template) []")
      case None
      with g tags show ?thesis
        by (simp add: generate_urls_from_template_def generate_urls_from_template_impl_def)
    next
      case (Some ls)
      show ?thesis
      proof (cases "count_total 1 ls")
        case (Inl e)
        with g tags Some show ?thesis
          by (simp add: generate_urls_from_template_def generate_urls_from_template_impl_def)
      next
        case (Inr r)
        have ne: "\<forall>t\<in>set (extract_tags template). get_values tv t \<noteq> []"
          using Some prepare_lists_None [of ucd tv "extract_tags template" "[]"] by auto
        have ls: "ls = map (working_list ucd tv) (extract_tags template)"
          using prepare_lists_Some [OF ne, where acc = "[]"] Some by simp
        have all: "\<forall>l\<in>set ls. l \<noteq> []"
          unfolding ls using ne by (simp add: working_list_empty_iff)
        have r: "r \<le> MAX_COMBINATIONS" by (rule count_total_Inr [OF Inr one])
        have "prod_list (map length ls) \<le> MAX_COMBINATIONS"
        proof (rule ccontr)
          assume "\<not> prod_list (map length ls) \<le> MAX_COMBINATIONS"
          then have "MAX_COMBINATIONS < 1 * prod_list (map length ls)" by simp
          from count_total_overflow [OF all one this] Inr show False by auto
        qed
        moreover have "urls = map (substitute template (extract_tags template)) (itertools_product ls)"
          using g tags Some Inr
          by (simp add: generate_urls_from_template_def generate_urls_from_template_impl_def)
        ultimately show ?thesis by (simp add: length_itertools_product)
      qed
    qed
  qed
qed

lemma generate_urls_from_combos:
  "generate_urls_from_template ucd template tv = Inr urls \<Longrightarrow> u \<in> set urls \<Longrightarrow>
   \<exists>combo\<in>set (itertools_product (map (working_list ucd tv) (extract_tags template))).
      u = substitute template (extract_tags template) combo"
proof -
  assume g: "generate_urls_from_template ucd template tv = Inr urls" and u: "u \<in> set urls"
  from g u have tags: "extract_tags template \<noteq> []"
    by (auto simp: generate_urls_from_template_def generate_urls_from_template_impl_def)
  have "prepare_lists ucd tv (extract_tags template) [] \<noteq> None"
  proof
    assume "prepare_lists ucd tv (extract_tags template) [] = None"
    with g tags have "urls = []"
      by (simp add: generate_urls_from_template_def generate_urls_from_template_impl_def)
    with u show False by simp
  qed
  then have ne: "\<forall>t\<in>set (extract_tags template). get_values tv t \<noteq> []"
    using prepare_lists_None [of ucd tv "extract_tags template" "[]"] by auto
  from g u show ?thesis
    unfolding generate_impl_cases [OF tags ne]
    by (auto split: sum.splits)
qed

lemma overview_tags: "extract_tags TEMPLATE_BANNER_OVERVIEW = [''V'', ''T'', ''E'']"
  by (simp add: TEMPLATE_BANNER_OVERVIEW_def char_class_defs)

lemma working_list_T: "working_list ucd tv ''T'' = get_values tv ''T''"
  by (simp add: working_list_def char_class_defs)

lemma length_overview_spellings: "length (overview_spellings b) = 5 * length b"
  by (induction b) (simp_all add: overview_spellings_def OVERVIEW_VARIANTS_def)

lemma overview_urls_shape:
  assumes g: "generate_urls_from_template ucd TEMPLATE_BANNER_OVERVIEW tv = Inr b"
    and u: "u \<in> set b"
    and t: "\<forall>t\<in>set (get_values tv ''T''). take 12 t \<noteq> ''overview.jpg''"
  shows "\<exists>p. u = p @ ''/overview.jpg''
            \<and> (\<forall>new. replace_py ''/overview.jpg'' new u = p @ new)"
proof -
  from generate_urls_from_combos [OF g u] obtain combo where
    c: "combo \<in> set (itertools_product (map (working_list ucd tv) [''V'', ''T'', ''E'']))"
    and uc: "u = substitute TEMPLATE_BANNER_OVERVIEW [''V'', ''T'', ''E''] combo"
    unfolding overview_tags by blast
  from c obtain v x e where combo: "combo = [v, x, e]" and x: "x \<in> set (working_list ucd tv ''T'')"
    by auto
  from x t have "take 12 x \<noteq> ''overview.jpg''" by (simp add: working_list_T)
  then have q: "take 12 (quote_py x []) \<noteq> ''overview.jpg''"
    using overview_prefix_of_quoted [of x] by blast
  let ?p = "''https://dl.dir.freefiremobile.com/common/OB'' @ quote_py v [] @ ''/ID/''
              @ quote_py x [] @ ''_'' @ quote_py e []"
  have "u = ?p @ ''/overview.jpg''"
    unfolding uc combo substitute_overview by simp
  moreover have "replace_py ''/overview.jpg'' new u = ?p @ new" for new
    unfolding uc combo substitute_overview
    using replace_overview_in_base [OF q, of new v e] by simp
  ultimately show ?thesis by blast
qed

text \<open>
  The URL list of the banner mode: the splash expansion followed by the overview expansion
  in which each base URL gives one URL per spelling of \<open>OVERVIEW_VARIANTS\<close>, by
  \<open>str.replace\<close> of \<open>/overview.jpg\<close>. An error of either expansion is the error of the
  whole, and each of the two expansions has at most 20000 URLs. When no value of the tag
  \<open>T\<close> begins with \<open>overview.jpg\<close>, the base URL contains \<open>/overview.jpg\<close> once, as its
  trailing path segment, and the replacement changes that segment alone.
\<close>

lemma banner_url_list:
  "build_urls ucd ''BANNER'' tv =
     (case generate_urls_from_template ucd TEMPLATE_BANNER_SPLASH tv of
        Inl e \<Rightarrow> Inl e
      | Inr splash_urls \<Rightarrow>
          (case generate_urls_from_template ucd TEMPLATE_BANNER_OVERVIEW tv of
             Inl e \<Rightarrow> Inl e
           | Inr base_ov_urls \<Rightarrow>
               Inr (splash_urls @
                    concat (map (\<lambda>base. map (\<lambda>v. replace_py ''/overview.jpg'' (''/'' @ v @ ''.jpg'') base)
                                   [''overview'', ''viewover'', ''overivew'', ''rivervow'', ''vowover''])
                              base_ov_urls))))
   \<and> (generate_urls_from_template ucd TEMPLATE_BANNER_SPLASH tv = Inr s \<longrightarrow> length s \<le> 20000)
   \<and> (generate_urls_from_template ucd TEMPLATE_BANNER_OVERVIEW tv = Inr b \<longrightarrow>
        length b \<le> 20000
        \<and> length (overview_spellings b) = 5 * length b
        \<and> ((\<forall>t\<in>set (get_values tv ''T''). take 12 t \<noteq> ''overview.jpg'') \<longrightarrow>
             (\<forall>u\<in>set b. \<exists>p. u = p @ ''/overview.jpg''
                 \<and> (\<forall>v. replace_py ''/overview.jpg'' (''/'' @ v @ ''.jpg'') u = p @ ''/'' @ v @ ''.jpg''))))"
proof -
  have 1: "build_urls ucd ''BANNER'' tv =
     (case generate_urls_from_template ucd TEMPLATE_BANNER_SPLASH tv of
        Inl e \<Rightarrow> Inl e
      | Inr splash_urls \<Rightarrow>
          (case generate_urls_from_template ucd TEMPLATE_BANNER_OVERVIEW tv of
             Inl e \<Rightarrow> Inl e
           | Inr base_ov_urls \<Rightarrow>
               Inr (splash_urls @
                    concat (map (\<lambda>base. map (\<lambda>v. replace_py ''/overview.jpg'' (''/'' @ v @ ''.jpg'') base)
                                   [''overview'', ''viewover'', ''overivew'', ''rivervow'', ''vowover''])
                              base_ov_urls))))"
    by (simp add: build_urls_def overview_spellings_def OVERVIEW_VARIANTS_def split: sum.splits)
  have 2: "length s \<le> 20000" if "generate_urls_from_template ucd TEMPLATE_BANNER_SPLASH tv = Inr s"
    using generate_within_ceiling [OF that] by (simp add: MAX_COMBINATIONS_def)
  have 3: "length b \<le> 20000" if "generate_urls_from_template ucd TEMPLATE_BANNER_OVERVIEW tv = Inr b"
    using generate_within_ceiling [OF that] by (simp add: MAX_COMBINATIONS_def)
  have 4: "\<exists>p. u = p @ ''/overview.jpg''
          \<and> (\<forall>v. replace_py ''/overview.jpg'' (''/'' @ v @ ''.jpg'') u = p @ ''/'' @ v @ ''.jpg'')"
    if "generate_urls_from_template ucd TEMPLATE_BANNER_OVERVIEW tv = Inr b"
      "\<forall>t\<in>set (get_values tv ''T''). take 12 t \<noteq> ''overview.jpg''" "u \<in> set b" for u
    using overview_urls_shape [OF that(1) that(3) that(2)] by blast
  from 1 2 3 4 length_overview_spellings [of b] show ?thesis by blast
qed

text \<open>
  Claim C7. The banner mode is meant to give, for each base overview URL, the five URLs
  that differ from it in the trailing \<open>overview\<close> segment only. The code replaces every
  occurrence of \<open>/overview.jpg\<close>: with the value \<open>overview.jpgX\<close> of the tag \<open>T\<close> the base URL
  is \<open>.../ID/overview.jpgX_e/overview.jpg\<close>, and the URL for the spelling \<open>viewover\<close> is
  \<open>.../ID/viewover.jpgX_e/viewover.jpg\<close>, not \<open>.../ID/overview.jpgX_e/viewover.jpg\<close>: the
  directory of the date and event is rewritten too, while the splash URL of the same
  values keeps it.
\<close>

theorem banner_replaces_every_occurrence:
  "build_urls ucd ''BANNER'' [''V'' \<mapsto> [''1''], ''T'' \<mapsto> [''overview.jpgX''], ''E'' \<mapsto> [''e'']]
     = Inr [''https://dl.dir.freefiremobile.com/common/OB1/ID/overview.jpgX_e/splash.jpg'',
            ''https://dl.dir.freefiremobile.com/common/OB1/ID/overview.jpgX_e/overview.jpg'',
            ''https://dl.dir.freefiremobile.com/common/OB1/ID/viewover.jpgX_e/viewover.jpg'',
            ''https://dl.dir.freefiremobile.com/common/OB1/ID/overivew.jpgX_e/overivew.jpg'',
            ''https://dl.dir.freefiremobile.com/common/OB1/ID/rivervow.jpgX_e/rivervow.jpg'',
            ''https://dl.dir.freefiremobile.com/common/OB1/ID/vowover.jpgX_e/vowover.jpg'']
   \<and> generate_urls_from_template ucd TEMPLATE_BANNER_OVERVIEW
        [''V'' \<mapsto> [''1''], ''T'' \<mapsto> [''overview.jpgX''], ''E'' \<mapsto> [''e'']]
     = Inr [''https://dl.dir.freefiremobile.com/common/OB1/ID/overview.jpgX_e'' @ ''/overview.jpg'']
   \<and> replace_py ''/overview.jpg'' ''/viewover.jpg''
        (''https://dl.dir.freefiremobile.com/common/OB1/ID/overview.jpgX_e'' @ ''/overview.jpg'')
     \<noteq> ''https://dl.dir.freefiremobile.com/common/OB1/ID/overview.jpgX_e'' @ ''/viewover.jpg''"
  by code_simp

end
